theory Spec2Isabelle
  imports Complex_Main
begin

section \<open>IEEE-754 binary64 values and the four operations the kernel uses\<close>

text \<open>
  The program \<open>sqrt_newton.c\<close> works on C \<open>double\<close> values with \<open>+\<close>, \<open>-\<close>, \<open>*\<close>, \<open>/\<close> and
  the comparisons \<open><\<close>, \<open><=\<close>, \<open>>=\<close>, \<open>==\<close>, \<open>!=\<close>. A binary64 value is modelled by its class:
  a NaN, a signed infinity, or a signed finite number \<open>Fin s m e\<close> standing for
  \<open>(-1)^s * m * 2^e\<close>. The sign is \<open>True\<close> for the negative sign bit, so that \<open>+0.0\<close> and
  \<open>-0.0\<close> are different values. Every operation computes the exact rational result and
  rounds it once, to nearest with ties to even, as the default rounding mode does
  (each operation is rounded to binary64, \<open>FLT_EVAL_METHOD = 0\<close>).
\<close>

datatype double = NaN | Inf bool | Fin bool nat int

text \<open>
  The canonical representations: zero is \<open>Fin s 0 (-1074)\<close>, a subnormal number has
  \<open>0 < m < 2^52\<close> and \<open>e = -1074\<close>, a normal number has \<open>2^52 \<le> m < 2^53\<close> and
  \<open>-1074 \<le> e \<le> 971\<close>.
\<close>

definition is_binary64 :: "double \<Rightarrow> bool" where
  "is_binary64 x =
     (case x of
        NaN \<Rightarrow> True
      | Inf s \<Rightarrow> True
      | Fin s m e \<Rightarrow> m < 2 ^ 53 \<and> - 1074 \<le> e \<and> e \<le> 971 \<and> (m < 2 ^ 52 \<longrightarrow> e = - 1074))"

text \<open>The number of binary digits of a natural number.\<close>

fun blen :: "nat \<Rightarrow> nat" where
  "blen n = (if n = 0 then 0 else Suc (blen (n div 2)))"

declare blen.simps [simp del]

text \<open>The nearest integer to \<open>n / d\<close>, ties to the even one, and the floor of \<open>n / d\<close>,
  both after scaling by \<open>2^k\<close> for an integer \<open>k\<close> of either sign.\<close>

definition round_half_even :: "nat \<Rightarrow> nat \<Rightarrow> nat" where
  "round_half_even n d =
     (let q = n div d; r = n mod d
      in if 2 * r < d then q
         else if d < 2 * r then q + 1
         else if even q then q else q + 1)"

definition scale_floor :: "nat \<Rightarrow> nat \<Rightarrow> int \<Rightarrow> nat" where
  "scale_floor n d k =
     (if 0 \<le> k then (n * 2 ^ nat k) div d else n div (d * 2 ^ nat (- k)))"

definition scale_round :: "nat \<Rightarrow> nat \<Rightarrow> int \<Rightarrow> nat" where
  "scale_round n d k =
     (if 0 \<le> k then round_half_even (n * 2 ^ nat k) d
      else round_half_even n (d * 2 ^ nat (- k)))"

text \<open>Overflow: a rounded magnitude beyond the largest finite binary64 is an infinity.\<close>

definition pack :: "bool \<Rightarrow> nat \<Rightarrow> int \<Rightarrow> double" where
  "pack s m e = (if 971 < e then Inf s else Fin s m e)"

text \<open>
  \<open>fround s n d E\<close> is the binary64 nearest to \<open>(-1)^s * (n / d) * 2^E\<close> for \<open>d > 0\<close>.
  The exponent of the result is found from the bit lengths (the quotient \<open>n / d\<close> lies
  strictly between \<open>2^(blen n - blen d - 1)\<close> and \<open>2^(blen n - blen d + 1)\<close>), never below
  \<open>-1074\<close>, the exponent of the subnormal numbers; the significand is rounded once.
\<close>

definition fround :: "bool \<Rightarrow> nat \<Rightarrow> nat \<Rightarrow> int \<Rightarrow> double" where
  "fround s n d E =
     (if n = 0 then Fin s 0 (- 1074)
      else
        let e0 = max (int (blen n) - int (blen d) + E - 53) (- 1074);
            e1 = (if 2 ^ 53 \<le> scale_floor n d (E - e0) then e0 + 1 else e0);
            m = scale_round n d (E - e1)
        in if m = 2 ^ 53 then pack s (2 ^ 52) (e1 + 1) else pack s m e1)"

text \<open>A finite value as an integer multiple of \<open>2^E\<close>, for an \<open>E\<close> not above its exponent.\<close>

definition aligned :: "int \<Rightarrow> bool \<Rightarrow> nat \<Rightarrow> int \<Rightarrow> int" where
  "aligned E s m e = (if s then - 1 else 1) * (int m * 2 ^ nat (e - E))"

fun fneg :: "double \<Rightarrow> double" where
  "fneg NaN = NaN"
| "fneg (Inf s) = Inf (\<not> s)"
| "fneg (Fin s m e) = Fin (\<not> s) m e"

fun fadd :: "double \<Rightarrow> double \<Rightarrow> double" where
  "fadd NaN y = NaN"
| "fadd x NaN = NaN"
| "fadd (Inf s) (Inf t) = (if s = t then Inf s else NaN)"
| "fadd (Inf s) (Fin t m e) = Inf s"
| "fadd (Fin s m e) (Inf t) = Inf t"
| "fadd (Fin s1 m1 e1) (Fin s2 m2 e2) =
     (let E = min e1 e2;
          k = aligned E s1 m1 e1 + aligned E s2 m2 e2
      in if k = 0 then Fin (s1 \<and> s2) 0 (- 1074)
         else fround (k < 0) (nat \<bar>k\<bar>) 1 E)"

definition fsub :: "double \<Rightarrow> double \<Rightarrow> double" where
  "fsub x y = fadd x (fneg y)"

fun fmul :: "double \<Rightarrow> double \<Rightarrow> double" where
  "fmul NaN y = NaN"
| "fmul x NaN = NaN"
| "fmul (Inf s) (Inf t) = Inf (s \<noteq> t)"
| "fmul (Inf s) (Fin t m e) = (if m = 0 then NaN else Inf (s \<noteq> t))"
| "fmul (Fin s m e) (Inf t) = (if m = 0 then NaN else Inf (s \<noteq> t))"
| "fmul (Fin s1 m1 e1) (Fin s2 m2 e2) = fround (s1 \<noteq> s2) (m1 * m2) 1 (e1 + e2)"

fun fdiv :: "double \<Rightarrow> double \<Rightarrow> double" where
  "fdiv NaN y = NaN"
| "fdiv x NaN = NaN"
| "fdiv (Inf s) (Inf t) = NaN"
| "fdiv (Inf s) (Fin t m e) = Inf (s \<noteq> t)"
| "fdiv (Fin s m e) (Inf t) = Fin (s \<noteq> t) 0 (- 1074)"
| "fdiv (Fin s1 m1 e1) (Fin s2 m2 e2) =
     (if m2 = 0 then (if m1 = 0 then NaN else Inf (s1 \<noteq> s2))
      else fround (s1 \<noteq> s2) m1 m2 (e1 - e2))"

text \<open>The comparisons: every comparison with a NaN is false, except \<open>!=\<close>, and the two
  zeros are equal.\<close>

fun flt :: "double \<Rightarrow> double \<Rightarrow> bool" where
  "flt NaN y = False"
| "flt x NaN = False"
| "flt (Inf s) (Inf t) = (s \<and> \<not> t)"
| "flt (Inf s) (Fin t m e) = s"
| "flt (Fin s m e) (Inf t) = (\<not> t)"
| "flt (Fin s1 m1 e1) (Fin s2 m2 e2) =
     (let E = min e1 e2 in aligned E s1 m1 e1 < aligned E s2 m2 e2)"

fun feq :: "double \<Rightarrow> double \<Rightarrow> bool" where
  "feq NaN y = False"
| "feq x NaN = False"
| "feq (Inf s) (Inf t) = (s = t)"
| "feq (Inf s) (Fin t m e) = False"
| "feq (Fin s m e) (Inf t) = False"
| "feq (Fin s1 m1 e1) (Fin s2 m2 e2) =
     (let E = min e1 e2 in aligned E s1 m1 e1 = aligned E s2 m2 e2)"

definition fle :: "double \<Rightarrow> double \<Rightarrow> bool" where
  "fle x y = (flt x y \<or> feq x y)"

definition fge :: "double \<Rightarrow> double \<Rightarrow> bool" where
  "fge x y = fle y x"

definition fne :: "double \<Rightarrow> double \<Rightarrow> bool" where
  "fne x y = (\<not> feq x y)"

text \<open>The constants of the source: \<open>0.0\<close>, \<open>1.0\<close> and \<open>0.5\<close>.\<close>

definition zero :: double where
  "zero = Fin False 0 (- 1074)"

definition one :: double where
  "one = Fin False (2 ^ 52) (- 52)"

definition half :: double where
  "half = Fin False (2 ^ 52) (- 53)"

section \<open>The program\<close>

text \<open>\<open>static double abs_double(double x) { return (x < 0.0) ? (0.0 - x) : x; }\<close>\<close>

definition abs_double :: "double \<Rightarrow> double" where
  "abs_double x = (if flt x zero then fsub zero x else x)"

text \<open>\<open>static int is_nan(double x) { return x != x; }\<close>\<close>

definition is_nan :: "double \<Rightarrow> bool" where
  "is_nan x = fne x x"

text \<open>
  The loop of \<open>sqrt_newton\<close>, from the state \<open>(i, x)\<close> at its head. It leaves through one of
  two \<open>return\<close> statements: \<open>Stopped i x_next\<close> is the \<open>return x_next\<close> inside the loop, taken
  in the iteration with counter \<open>i\<close>; \<open>Exhausted x\<close> is the \<open>return x\<close> after the loop. The
  counter is a C \<open>int\<close> that stays below \<open>max_iters\<close>, so \<open>++i\<close> never overflows and the
  counter is an \<open>int\<close> here.
\<close>

datatype loop_exit = Stopped int double | Exhausted double

function newton_loop :: "double \<Rightarrow> double \<Rightarrow> int \<Rightarrow> int \<Rightarrow> double \<Rightarrow> loop_exit" where
  "newton_loop a eps max_iters i x =
     (if i < max_iters then
        let x_next = fmul half (fadd x (fdiv a x));
            diff = abs_double (fsub x_next x);
            tol = fmul eps (fadd one (abs_double x_next))
        in if fle diff tol then Stopped i x_next
           else newton_loop a eps max_iters (i + 1) x_next
      else Exhausted x)"
  by pat_completeness auto

termination
  by (relation "measure (\<lambda>(a, eps, max_iters, i, x). nat (max_iters - i))") auto

declare newton_loop.simps [simp del]

fun estimate :: "loop_exit \<Rightarrow> double" where
  "estimate (Stopped i x) = x"
| "estimate (Exhausted x) = x"

text \<open>The pre-dispatch on \<open>a\<close> and the initial guess.\<close>

definition initial_guess :: "double \<Rightarrow> double" where
  "initial_guess a = (if fge a one then a else one)"

definition sqrt_newton_exit :: "double \<Rightarrow> double \<Rightarrow> int \<Rightarrow> loop_exit option" where
  "sqrt_newton_exit a eps max_iters =
     (if flt a zero then None
      else if feq a zero then None
      else Some (newton_loop a eps max_iters 0 (initial_guess a)))"

definition sqrt_newton :: "double \<Rightarrow> double \<Rightarrow> int \<Rightarrow> double" where
  "sqrt_newton a eps max_iters =
     (if flt a zero then (let z = zero in fdiv z z)
      else if feq a zero then zero
      else estimate (newton_loop a eps max_iters 0 (initial_guess a)))"

text \<open>
  The values at which line 76 of the source evaluates the quotient \<open>a / x\<close>, in order: the
  loop of \<open>newton_loop\<close> again, collecting its divisors. The two early returns of
  \<open>sqrt_newton\<close> come before the loop and divide nothing by the estimate.
\<close>

function newton_divisors :: "double \<Rightarrow> double \<Rightarrow> int \<Rightarrow> int \<Rightarrow> double \<Rightarrow> double list" where
  "newton_divisors a eps max_iters i x =
     (if i < max_iters then
        let x_next = fmul half (fadd x (fdiv a x));
            diff = abs_double (fsub x_next x);
            tol = fmul eps (fadd one (abs_double x_next))
        in x # (if fle diff tol then []
                else newton_divisors a eps max_iters (i + 1) x_next)
      else [])"
  by pat_completeness auto

termination
  by (relation "measure (\<lambda>(a, eps, max_iters, i, x). nat (max_iters - i))") auto

declare newton_divisors.simps [simp del]

definition sqrt_newton_divisors :: "double \<Rightarrow> double \<Rightarrow> int \<Rightarrow> double list" where
  "sqrt_newton_divisors a eps max_iters =
     (if flt a zero then []
      else if feq a zero then []
      else newton_divisors a eps max_iters 0 (initial_guess a))"

section \<open>Floating-point exceptions\<close>














section \<open>The iteration as a sequence\<close>

text \<open>
  The specification speaks of the iterates \<open>x\<^sub>0, x\<^sub>1, \<dots>\<close> and of the stopping test between
  two consecutive ones. These definitions follow its words; the loop above is compared
  with them.
\<close>

definition heron :: "double \<Rightarrow> double \<Rightarrow> double" where
  "heron a x = fmul half (fadd x (fdiv a x))"

definition stop_test :: "double \<Rightarrow> double \<Rightarrow> double \<Rightarrow> bool" where
  "stop_test eps x x_next =
     fle (abs_double (fsub x_next x)) (fmul eps (fadd one (abs_double x_next)))"

text \<open>What the loop does with the new estimate once it is computed.\<close>

definition after_step :: "double \<Rightarrow> double \<Rightarrow> int \<Rightarrow> int \<Rightarrow> double \<Rightarrow> double \<Rightarrow> loop_exit" where
  "after_step a eps max_iters i x x_next =
     (if stop_test eps x x_next then Stopped i x_next
      else newton_loop a eps max_iters (i + 1) x_next)"

fun iterate :: "double \<Rightarrow> nat \<Rightarrow> double" where
  "iterate a 0 = initial_guess a"
| "iterate a (Suc n) = heron a (iterate a n)"

definition stops :: "double \<Rightarrow> double \<Rightarrow> nat \<Rightarrow> bool" where
  "stops a eps n = stop_test eps (iterate a n) (iterate a (Suc n))"

section \<open>Real values\<close>

text \<open>The real number a finite binary64 stands for, and the unit in the last place of a
  finite binary64: the distance to the next larger magnitude.\<close>

fun valof :: "double \<Rightarrow> real" where
  "valof (Fin s m e) = (if s then - 1 else 1) * (real m * 2 powi e)"
| "valof x = 0"


fun is_finite :: "double \<Rightarrow> bool" where
  "is_finite (Fin s m e) = True"
| "is_finite x = False"

text \<open>A strictly positive value: a positive finite number or \<open>+\<infinity>\<close>.\<close>

fun positive :: "double \<Rightarrow> bool" where
  "positive (Fin s m e) = (\<not> s \<and> 0 < m)"
| "positive (Inf s) = (\<not> s)"
| "positive NaN = False"

text \<open>The smallest positive binary64, \<open>Fin False 1 (-1074)\<close>, as a real number.\<close>

definition min_subnormal :: real where
  "min_subnormal = 2 powi (- 1074)"

text \<open>The unit roundoff \<open>2^-53\<close> of binary64 and half the spacing \<open>2^-1075\<close> of the
  subnormal numbers: the relative and the absolute rounding error bound.\<close>

definition unit_roundoff :: real where
  "unit_roundoff = 2 powi (- 53)"

definition half_min_subnormal :: real where
  "half_min_subnormal = 2 powi (- 1075)"

text \<open>The exact quotient \<open>(n / d) * 2^k\<close> that \<open>scale_floor\<close> and \<open>scale_round\<close> turn into
  an integer.\<close>

definition ratio :: "nat \<Rightarrow> nat \<Rightarrow> int \<Rightarrow> real" where
  "ratio n d k = real n / real d * 2 powi k"

section \<open>The driver\<close>

text \<open>
  \<open>main\<close> calls \<open>sqrt_newton(tests[i], 1e-12, 100)\<close> for the seven entries of
  \<open>tests[] = {0.0, 2.0, 9.0, 0.25, 1e-12, 1e12, -4.0}\<close>. A decimal literal denotes the
  binary64 nearest to it: \<open>decimal n d\<close> is the literal with the value \<open>n / d\<close>.
\<close>

definition decimal :: "nat \<Rightarrow> nat \<Rightarrow> double" where
  "decimal n d = fround False n d 0"

definition eps12 :: double where
  "eps12 = Fin False 4951760157141521 (- 92)"

definition d_2 :: double where
  "d_2 = Fin False 4503599627370496 (- 51)"

definition d_9 :: double where
  "d_9 = Fin False 5066549580791808 (- 49)"

definition d_quarter :: double where
  "d_quarter = Fin False 4503599627370496 (- 54)"

definition d_1em12 :: double where
  "d_1em12 = Fin False 4951760157141521 (- 92)"

definition d_1e12 :: double where
  "d_1e12 = Fin False 8192000000000000 (- 13)"

definition d_minus4 :: double where
  "d_minus4 = Fin True 4503599627370496 (- 50)"

text \<open>Two further inputs used below: \<open>3.0\<close> and \<open>2^256\<close> (about \<open>1.16e77\<close>).\<close>

definition d_3 :: double where
  "d_3 = Fin False 6755399441055744 (- 51)"

definition d_2p256 :: double where
  "d_2p256 = Fin False 4503599627370496 204"

definition d_3p109 :: double where
  "d_3p109 = Fin False 6755399441055744 58"

text \<open>Whether the loop was entered and left through the stop test in an iteration with
  counter below \<open>k\<close>, that is, within \<open>k\<close> iterations.\<close>

fun stopped_within :: "int \<Rightarrow> loop_exit option \<Rightarrow> bool" where
  "stopped_within k (Some (Stopped i x)) = (i < k)"
| "stopped_within k (Some (Exhausted x)) = False"
| "stopped_within k None = False"

definition tests :: "double list" where
  "tests = [zero, d_2, d_9, d_quarter, d_1em12, d_1e12, d_minus4]"

definition driver_results :: "double list" where
  "driver_results = map (\<lambda>a. sqrt_newton a eps12 100) tests"

section \<open>Comparisons with zero and the NaN\<close>

lemma flt_zero_right: "flt (Fin s m e) zero = (s \<and> 0 < m)"
  by (simp add: zero_def aligned_def zero_less_mult_iff mult_less_0_iff)

lemma flt_zero_left: "flt zero (Fin s m e) = (\<not> s \<and> 0 < m)"
  by (simp add: zero_def aligned_def zero_less_mult_iff mult_less_0_iff)

lemma feq_zero_right: "feq (Fin s m e) zero = (m = 0)"
  by (simp add: zero_def aligned_def)

lemma flt_zero_iff: "flt x zero \<longleftrightarrow> (x = Inf True \<or> (\<exists>m e. x = Fin True m e \<and> 0 < m))"
  by (cases x) (auto simp: flt_zero_right, simp_all add: zero_def)

lemma positive_iff: "positive x \<longleftrightarrow> flt zero x"
  by (cases x) (auto simp: flt_zero_left, simp_all add: zero_def)

lemma abs_double_NaN: "abs_double NaN = NaN"
  by (simp add: abs_double_def)

lemma fmul_NaN_right: "fmul x NaN = NaN"
  by (cases x) simp_all

lemma fadd_NaN_right: "fadd x NaN = NaN"
  by (cases x) simp_all

lemma fdiv_NaN_right: "fdiv x NaN = NaN"
  by (cases x) simp_all

lemma fle_NaN: "fle NaN y = False"
  by (simp add: fle_def)

lemma newton_loop_NaN:
  "newton_loop a eps max_iters i NaN = Exhausted NaN"
proof (induction "nat (max_iters - i)" arbitrary: i)
  case 0
  then show ?case
    by (subst newton_loop.simps) simp
next
  case (Suc n)
  have "newton_loop a eps max_iters (i + 1) NaN = Exhausted NaN"
  proof (cases n)
    case 0
    with Suc(2) have "\<not> i + 1 < max_iters"
      by linarith
    then show ?thesis
      by (subst newton_loop.simps) simp
  next
    case (Suc k)
    with Suc.hyps(2) show ?thesis
      by (intro Suc.hyps(1)) linarith
  qed
  then show ?case
    by (subst newton_loop.simps)
       (simp add: fsub_def abs_double_NaN fmul_NaN_right fadd_NaN_right fle_NaN)
qed

lemma newton_loop_first_NaN:
  assumes "1 \<le> max_iters" and "fmul half (fadd x (fdiv a x)) = NaN"
  shows "newton_loop a eps max_iters 0 x = Exhausted NaN"
proof -
  have "fsub NaN x = NaN"
    by (simp add: fsub_def)
  with assms show ?thesis
    by (subst newton_loop.simps)
       (simp add: abs_double_NaN fmul_NaN_right fadd_NaN_right fle_NaN newton_loop_NaN)
qed

section \<open>Bit lengths\<close>

lemma blen_0: "blen 0 = 0"
  by (simp add: blen.simps)

lemma blen_One: "blen (numeral Num.One) = 1"
  by (simp add: blen.simps)

lemma blen_1: "blen 1 = 1"
  by (simp add: blen.simps)

lemma blen_Suc0: "blen (Suc 0) = 1"
  by (simp add: blen.simps)

lemma blen_Bit0: "blen (numeral (Num.Bit0 k)) = Suc (blen (numeral k))"
  by (subst blen.simps) (simp add: numeral_Bit0_div_2)

lemma blen_Bit1: "blen (numeral (Num.Bit1 k)) = Suc (blen (numeral k))"
  by (subst blen.simps) (simp add: numeral_Bit1_div_2)

lemma blen_bounds: "0 < n \<Longrightarrow> 2 ^ (blen n - 1) \<le> n \<and> n < 2 ^ blen n"
proof (induction n rule: blen.induct)
  case (1 n)
  show ?case
  proof (cases "n div 2 = 0")
    case True
    with 1(2) have "n = 1"
      by (simp add: div_eq_0_iff) 
    then show ?thesis
      by (simp add: blen_Suc0)
  next
    case False
    then have pos: "0 < n div 2"
      by simp
    from 1(2) have n0: "n \<noteq> 0"
      by simp
    have ih: "2 ^ (blen (n div 2) - 1) \<le> n div 2 \<and> n div 2 < 2 ^ blen (n div 2)"
      using 1(1) [OF n0 pos] .
    have b: "blen n = Suc (blen (n div 2))"
      using n0 by (subst blen.simps) simp
    have bpos: "0 < blen (n div 2)"
      using pos by (subst blen.simps) simp
    then obtain c where c: "blen (n div 2) = Suc c"
      by (cases "blen (n div 2)") auto
    from ih c have "2 * 2 ^ c \<le> 2 * (n div 2)" "2 * (n div 2) + 1 < 2 * 2 ^ Suc c"
      by simp_all
    then show ?thesis
      unfolding b c by simp linarith
  qed
qed

lemma blen_pos: "0 < n \<Longrightarrow> 0 < blen n"
  by (subst blen.simps) simp

lemma blen_real_bounds:
  assumes "0 < n"
  shows "2 powi (int (blen n) - 1) \<le> real n" and "real n < 2 powi (int (blen n))"
proof -
  from blen_pos [OF assms] have eq: "int (blen n) - 1 = int (blen n - 1)"
    by simp
  from blen_bounds [OF assms] have "real ((2::nat) ^ (blen n - 1)) \<le> real n"
    "real n < real ((2::nat) ^ blen n)"
    using of_nat_le_iff of_nat_less_iff by blast+
  then show "2 powi (int (blen n) - 1) \<le> real n" and "real n < 2 powi (int (blen n))"
    unfolding eq by simp_all
qed

section \<open>Rounding a quotient to an integer\<close>

lemma ratio_nonneg: "0 \<le> ratio n d k"
  by (simp add: ratio_def)

lemma ratio_shift: "ratio n d (k + j) = ratio n d k * 2 powi j"
  by (simp add: ratio_def power_int_add)

lemma ratio_nonneg_exp: "0 \<le> k \<Longrightarrow> ratio n d k = real (n * 2 ^ nat k) / real d"
  by (simp add: ratio_def power_int_nonneg_exp)

lemma ratio_neg_exp: "k < 0 \<Longrightarrow> ratio n d k = real n / real (d * 2 ^ nat (- k))"
proof -
  assume "k < 0"
  then have "(2::real) powi k = 1 / 2 ^ nat (- k)"
    by (simp add: power_int_def power_one_over inverse_eq_divide)
  then show ?thesis
    by (simp add: ratio_def)
qed

lemma round_half_even_ge: "0 < d \<Longrightarrow> j * d \<le> n \<Longrightarrow> j \<le> round_half_even n d"
proof -
  assume d: "0 < d" and le: "j * d \<le> n"
  then have "j \<le> n div d"
    by (simp add: less_eq_div_iff_mult_less_eq)
  then show ?thesis
    by (simp add: round_half_even_def Let_def)
qed

lemma round_half_even_le: "0 < d \<Longrightarrow> n \<le> j * d \<Longrightarrow> round_half_even n d \<le> j"
proof -
  assume d: "0 < d" and le: "n \<le> j * d"
  show ?thesis
  proof (cases "n = j * d")
    case True
    with d show ?thesis
      by (simp add: round_half_even_def Let_def)
  next
    case False
    with le have "n < j * d"
      by simp
    with d have "n div d < j"
      by (simp add: div_less_iff_less_mult)
    then show ?thesis
      by (simp add: round_half_even_def Let_def)
  qed
qed

lemma real_le_div_iff: "0 < d \<Longrightarrow> real j \<le> real n / real d \<longleftrightarrow> j * d \<le> n"
proof -
  assume d: "0 < d"
  then have "real j \<le> real n / real d \<longleftrightarrow> real j * real d \<le> real n"
    by (simp add: pos_le_divide_eq)
  also have "\<dots> \<longleftrightarrow> real (j * d) \<le> real n"
    by simp
  also have "\<dots> \<longleftrightarrow> j * d \<le> n"
    using of_nat_le_iff by blast
  finally show ?thesis .
qed

lemma real_div_le_iff: "0 < d \<Longrightarrow> real n / real d \<le> real j \<longleftrightarrow> n \<le> j * d"
proof -
  assume d: "0 < d"
  then have "real n / real d \<le> real j \<longleftrightarrow> real n \<le> real j * real d"
    by (simp add: pos_divide_le_eq)
  also have "\<dots> \<longleftrightarrow> real n \<le> real (j * d)"
    by simp
  also have "\<dots> \<longleftrightarrow> n \<le> j * d"
    using of_nat_le_iff by blast
  finally show ?thesis .
qed

lemma scale_round_ge:
  assumes "0 < d" and "real j \<le> ratio n d k"
  shows "j \<le> scale_round n d k"
proof (cases "0 \<le> k")
  case True
  with assms show ?thesis
    by (simp add: scale_round_def ratio_nonneg_exp real_le_div_iff round_half_even_ge
        del: of_nat_mult of_nat_power)
next
  case False
  then have k: "k < 0" by simp
  have d': "0 < d * 2 ^ nat (- k)"
    using assms(1) by simp
  from assms(2) have "j * (d * 2 ^ nat (- k)) \<le> n"
    unfolding ratio_neg_exp [OF k] real_le_div_iff [OF d'] .
  with k d' show ?thesis
    by (simp add: scale_round_def round_half_even_ge)
qed

lemma scale_round_le:
  assumes "0 < d" and "ratio n d k \<le> real j"
  shows "scale_round n d k \<le> j"
proof (cases "0 \<le> k")
  case True
  with assms show ?thesis
    by (simp add: scale_round_def ratio_nonneg_exp real_div_le_iff round_half_even_le
        del: of_nat_mult of_nat_power)
next
  case False
  then have k: "k < 0" by simp
  have d': "0 < d * 2 ^ nat (- k)"
    using assms(1) by simp
  from assms(2) have "n \<le> j * (d * 2 ^ nat (- k))"
    unfolding ratio_neg_exp [OF k] real_div_le_iff [OF d'] .
  with k d' show ?thesis
    by (simp add: scale_round_def round_half_even_le)
qed

lemma scale_floor_ge_iff:
  assumes "0 < d"
  shows "j \<le> scale_floor n d k \<longleftrightarrow> real j \<le> ratio n d k"
proof (cases "0 \<le> k")
  case True
  with assms show ?thesis
    by (simp add: scale_floor_def ratio_nonneg_exp real_le_div_iff less_eq_div_iff_mult_less_eq
        del: of_nat_mult of_nat_power)
next
  case False
  then have k: "k < 0" by simp
  have d': "0 < d * 2 ^ nat (- k)"
    using assms(1) by simp
  show ?thesis
    unfolding ratio_neg_exp [OF k] real_le_div_iff [OF d']
    using k d' by (simp add: scale_floor_def less_eq_div_iff_mult_less_eq)
qed


section \<open>The shape of a rounded result\<close>

lemma quotient_bounds:
  assumes "0 < n" and "0 < d"
  shows "2 powi (int (blen n) - int (blen d) - 1) < real n / real d"
    and "real n / real d < 2 powi (int (blen n) - int (blen d) + 1)"
proof -
  note bn = blen_real_bounds [OF assms(1)] and bd = blen_real_bounds [OF assms(2)]
  have dpos: "0 < real d" and npos: "0 < real n"
    using assms by simp_all
  have "int (blen n) - int (blen d) - 1 = (int (blen n) - 1) - int (blen d)"
    by simp
  then have "(2::real) powi (int (blen n) - int (blen d) - 1)
      = 2 powi ((int (blen n) - 1) - int (blen d))"
    by (rule arg_cong)
  also have "\<dots> = 2 powi (int (blen n) - 1) / 2 powi (int (blen d))"
    by (rule power_int_diff) simp
  also have "\<dots> \<le> real n / 2 powi (int (blen d))"
    using bn(1) by (simp add: divide_right_mono)
  also have "\<dots> < real n / real d"
    using bd(2) dpos npos by (simp add: divide_strict_left_mono)
  finally show "2 powi (int (blen n) - int (blen d) - 1) < real n / real d" .
  have p: "0 < (2::real) powi (int (blen d) - 1)"
    by simp
  have "real n / real d \<le> real n / 2 powi (int (blen d) - 1)"
    using bd(1) npos p dpos by (intro divide_left_mono mult_pos_pos) simp_all
  also have "\<dots> < 2 powi (int (blen n)) / 2 powi (int (blen d) - 1)"
    using bn(2) p by (simp add: divide_strict_right_mono)
  also have "\<dots> = 2 powi (int (blen n) - (int (blen d) - 1))"
    by (rule power_int_diff [symmetric]) simp
  also have "\<dots> = 2 powi (int (blen n) - int (blen d) + 1)"
    by (rule arg_cong [where f = "power_int 2"]) simp
  finally show "real n / real d < 2 powi (int (blen n) - int (blen d) + 1)" .
qed

lemma ratio_guess:
  assumes "0 < n" and "0 < d"
  shows "2 ^ 52 < ratio n d (E - (int (blen n) - int (blen d) + E - 53))"
    and "ratio n d (E - (int (blen n) - int (blen d) + E - 53)) < 2 ^ 54"
proof -
  let ?g = "int (blen n) - int (blen d)"
  have k: "E - (?g + E - 53) = 53 - ?g"
    by simp
  have pos: "0 < (2::real) powi (53 - ?g)"
    by simp
  have "(2::real) ^ 52 = 2 powi (?g - 1) * 2 powi (53 - ?g)"
    by (simp add: power_int_add [symmetric])
  also have "\<dots> < real n / real d * 2 powi (53 - ?g)"
    using quotient_bounds(1) [OF assms] pos by (rule mult_strict_right_mono)
  finally show "2 ^ 52 < ratio n d (E - (?g + E - 53))"
    unfolding k ratio_def .
  have "real n / real d * 2 powi (53 - ?g) < 2 powi (?g + 1) * 2 powi (53 - ?g)"
    using quotient_bounds(2) [OF assms] pos by (rule mult_strict_right_mono)
  also have "\<dots> = 2 ^ 54"
    by (simp add: power_int_add [symmetric])
  finally show "ratio n d (E - (?g + E - 53)) < 2 ^ 54"
    unfolding k ratio_def .
qed

lemma ratio_pred: "ratio n d (E - (e + 1)) = ratio n d (E - e) / 2"
proof -
  have "E - (e + 1) = (E - e) + (- 1)"
    by simp
  then have "ratio n d (E - (e + 1)) = ratio n d ((E - e) + (- 1))"
    by (rule arg_cong)
  also have "\<dots> = ratio n d (E - e) * 2 powi (- 1)"
    by (rule ratio_shift)
  finally show ?thesis
    by simp
qed

lemma fround_cases:
  assumes "0 < n" and "0 < d"
  obtains e where "- 1074 \<le> e"
    and "ratio n d (E - e) < 2 ^ 53"
    and "- 1074 < e \<Longrightarrow> 2 ^ 52 \<le> ratio n d (E - e)"
    and "fround s n d E =
          (if scale_round n d (E - e) = 2 ^ 53 then pack s (2 ^ 52) (e + 1)
           else pack s (scale_round n d (E - e)) e)"
proof -
  define g where "g = int (blen n) - int (blen d) + E - 53"
  define e0 where "e0 = max g (- 1074)"
  define e1 where "e1 = (if 2 ^ 53 \<le> scale_floor n d (E - e0) then e0 + 1 else e0)"
  have fr: "fround s n d E =
          (if scale_round n d (E - e1) = 2 ^ 53 then pack s (2 ^ 52) (e1 + 1)
           else pack s (scale_round n d (E - e1)) e1)"
  proof -
    have "n \<noteq> 0"
      using assms(1) by simp
    then show ?thesis
      unfolding fround_def Let_def e1_def e0_def g_def by (simp only: if_False)
  qed
  have fl: "2 ^ 53 \<le> scale_floor n d (E - e0) \<longleftrightarrow> 2 ^ 53 \<le> ratio n d (E - e0)"
    using scale_floor_ge_iff [OF assms(2), of "2 ^ 53" n "E - e0"] by simp
  have lo: "2 ^ 52 < ratio n d (E - g)" and hi: "ratio n d (E - g) < 2 ^ 54"
    using ratio_guess [OF assms, of E] by (simp_all add: g_def)
  have e1_ge: "- 1074 \<le> e1"
    by (simp add: e1_def e0_def max_def)
  have up: "ratio n d (E - e1) < 2 ^ 53"
  proof (cases "2 ^ 53 \<le> ratio n d (E - e0)")
    case True
    have "g \<ge> - 1074"
    proof (rule ccontr)
      assume "\<not> g \<ge> - 1074"
      then have e0: "e0 = - 1074" and gl: "g + 1 \<le> - 1074"
        by (simp_all add: e0_def)
      have "ratio n d (E - e0) = ratio n d (E - g) * 2 powi (g + 1074)"
        unfolding e0 by (simp add: ratio_shift [symmetric])
      also have "\<dots> \<le> ratio n d (E - g) * 2 powi (- 1)"
        using gl by (intro mult_left_mono power_int_increasing ratio_nonneg) simp_all
      also have "\<dots> < 2 ^ 53"
        using hi by simp
      finally show False
        using True by simp
    qed
    then have e0: "e0 = g"
      by (simp add: e0_def)
    have e1: "e1 = g + 1"
      using True fl by (simp add: e1_def e0)
    have "ratio n d (E - e1) = ratio n d (E - g) / 2"
      unfolding e1 by (rule ratio_pred)
    also have "\<dots> < 2 ^ 53"
      using hi by simp
    finally show ?thesis .
  next
    case False
    then have "e1 = e0"
      using fl by (simp add: e1_def)
    with False show ?thesis
      by simp
  qed
  have down: "2 ^ 52 \<le> ratio n d (E - e1)" if "- 1074 < e1"
  proof (cases "2 ^ 53 \<le> ratio n d (E - e0)")
    case True
    then have e1: "e1 = e0 + 1"
      using fl by (simp add: e1_def)
    have "ratio n d (E - e1) = ratio n d (E - e0) / 2"
      unfolding e1 by (rule ratio_pred)
    then show ?thesis
      using True by simp
  next
    case False
    then have e1: "e1 = e0"
      using fl by (simp add: e1_def)
    with that have "e0 = g"
      by (simp add: e0_def max_def split: if_splits)
    with lo e1 show ?thesis
      by simp
  qed
  show ?thesis
    using that [OF e1_ge up down fr] .
qed


lemma ratio_unshift: "ratio n d E = ratio n d (E - e) * 2 powi e"
  using ratio_shift [of n d "E - e" e] by simp

lemma pack_value:
  "(if m = 2 ^ 53 then pack s (2 ^ 52) (e + 1) else pack s m e) = Inf s
   \<or> (\<exists>m' e'. (if m = 2 ^ 53 then pack s (2 ^ 52) (e + 1) else pack s m e) = Fin s m' e'
        \<and> real m' * 2 powi e' = real m * 2 powi e)"
  by (auto simp: pack_def power_int_add)

lemma fround_binary64:
  assumes "0 < d"
  shows "is_binary64 (fround s n d E)"
proof (cases "n = 0")
  case True
  then show ?thesis
    by (simp add: fround_def is_binary64_def)
next
  case False
  then have n: "0 < n" by simp
  obtain e where e: "- 1074 \<le> e"
    and up: "ratio n d (E - e) < 2 ^ 53"
    and down: "- 1074 < e \<Longrightarrow> 2 ^ 52 \<le> ratio n d (E - e)"
    and fr: "fround s n d E =
          (if scale_round n d (E - e) = 2 ^ 53 then pack s (2 ^ 52) (e + 1)
           else pack s (scale_round n d (E - e)) e)"
    using fround_cases [OF n assms] by blast
  define m where "m = scale_round n d (E - e)"
  have "ratio n d (E - e) \<le> real ((2::nat) ^ 53)"
    using up by simp
  then have m_le: "m \<le> 2 ^ 53"
    unfolding m_def by (rule scale_round_le [OF assms])
  have m_ge: "2 ^ 52 \<le> m" if "- 1074 < e"
  proof -
    have "real ((2::nat) ^ 52) \<le> ratio n d (E - e)"
      using down [OF that] by simp
    then show ?thesis
      unfolding m_def by (rule scale_round_ge [OF assms])
  qed
  have sub: "e = - 1074" if "m < 2 ^ 52"
  proof (rule ccontr)
    assume "e \<noteq> - 1074"
    with e have "- 1074 < e" by simp
    from m_ge [OF this] that show False by simp
  qed
  show ?thesis
  proof (cases "m = 2 ^ 53")
    case True
    then show ?thesis
      unfolding fr m_def [symmetric] using e by (simp add: pack_def is_binary64_def)
  next
    case False
    with m_le have "m < 2 ^ 53" by simp
    with False show ?thesis
      unfolding fr m_def [symmetric] using e sub by (simp add: pack_def is_binary64_def)
  qed
qed

lemma fround_sign:
  "fround s n d E = Inf s \<or> (\<exists>m e. fround s n d E = Fin s m e)"
  by (auto simp: fround_def Let_def pack_def)

lemma fround_lower:
  assumes n: "0 < n" and d: "0 < d"
    and M: "is_binary64 (Fin t M e')"
    and le: "real M * 2 powi e' \<le> ratio n d E"
  shows "fround s n d E = Inf s
     \<or> (\<exists>m e. fround s n d E = Fin s m e \<and> real M * 2 powi e' \<le> real m * 2 powi e)"
proof -
  obtain e where e: "- 1074 \<le> e"
    and up: "ratio n d (E - e) < 2 ^ 53"
    and down: "- 1074 < e \<Longrightarrow> 2 ^ 52 \<le> ratio n d (E - e)"
    and fr: "fround s n d E =
          (if scale_round n d (E - e) = 2 ^ 53 then pack s (2 ^ 52) (e + 1)
           else pack s (scale_round n d (E - e)) e)"
    using fround_cases [OF n d] by blast
  define m where "m = scale_round n d (E - e)"
  have p: "0 < (2::real) powi e"
    by simp
  have key: "real M * 2 powi e' \<le> real m * 2 powi e"
  proof (cases "e \<le> e'")
    case True
    define j where "j = M * 2 ^ nat (e' - e)"
    have je: "real j * 2 powi e = real M * 2 powi e'"
    proof -
      have "(2::real) powi e' = 2 powi (e' - e) * 2 powi e"
        by (simp add: power_int_add [symmetric])
      moreover have "(2::real) powi (e' - e) = 2 ^ nat (e' - e)"
        using True by (simp add: power_int_def)
      ultimately show ?thesis
        by (simp add: j_def)
    qed
    have "real j * 2 powi e \<le> ratio n d (E - e) * 2 powi e"
      using le unfolding je ratio_unshift [of n d E e] .
    then have "real j \<le> ratio n d (E - e)"
      using p by simp
    then have "j \<le> m"
      unfolding m_def by (rule scale_round_ge [OF d])
    then have "real j * 2 powi e \<le> real m * 2 powi e"
      using p by simp
    then show ?thesis
      unfolding je .
  next
    case False
    then have lt: "e' + 1 \<le> e" and "- 1074 < e"
      using M by (simp_all add: is_binary64_def)
    then have "real ((2::nat) ^ 52) \<le> ratio n d (E - e)"
      using down by simp
    then have m52: "2 ^ 52 \<le> m"
      unfolding m_def by (rule scale_round_ge [OF d])
    have "real M * 2 powi e' \<le> 2 ^ 53 * 2 powi e'"
      using M by (simp add: is_binary64_def)
    also have "\<dots> = 2 ^ 52 * 2 powi (e' + 1)"
      by (simp add: power_int_add)
    also have "\<dots> \<le> 2 ^ 52 * 2 powi e"
      using lt by (intro mult_left_mono power_int_increasing) simp_all
    also have "\<dots> \<le> real m * 2 powi e"
    proof -
      have "real ((2::nat) ^ 52) \<le> real m"
        using m52 of_nat_le_iff by blast
      then show ?thesis
        by simp
    qed
    finally show ?thesis .
  qed
  show ?thesis
    unfolding fr m_def [symmetric] using pack_value [of m s e] key by auto
qed

lemma fround_upper:
  assumes n: "0 < n" and d: "0 < d"
    and M: "is_binary64 (Fin t M e')"
    and le: "ratio n d E \<le> real M * 2 powi e'"
  shows "\<exists>m e. fround s n d E = Fin s m e \<and> real m * 2 powi e \<le> real M * 2 powi e'"
proof -
  obtain e where e: "- 1074 \<le> e"
    and up: "ratio n d (E - e) < 2 ^ 53"
    and down: "- 1074 < e \<Longrightarrow> 2 ^ 52 \<le> ratio n d (E - e)"
    and fr: "fround s n d E =
          (if scale_round n d (E - e) = 2 ^ 53 then pack s (2 ^ 52) (e + 1)
           else pack s (scale_round n d (E - e)) e)"
    using fround_cases [OF n d] by blast
  define m where "m = scale_round n d (E - e)"
  have p: "0 < (2::real) powi e"
    by simp
  have M53: "real M < 2 ^ 53"
  proof -
    have "M < 2 ^ 53"
      using M by (simp add: is_binary64_def)
    then have "real M < real ((2::nat) ^ 53)"
      using of_nat_less_iff by blast
    then show ?thesis
      by simp
  qed
  have ee: "e \<le> e'"
  proof (rule ccontr)
    assume "\<not> e \<le> e'"
    then have lt: "e' + 1 \<le> e" and "- 1074 < e"
      using M by (simp_all add: is_binary64_def)
    then have y: "2 ^ 52 \<le> ratio n d (E - e)"
      using down by simp
    have "real M * 2 powi e' < 2 ^ 53 * 2 powi e'"
      using M53 by simp
    also have "\<dots> = 2 ^ 52 * 2 powi (e' + 1)"
      by (simp add: power_int_add)
    also have "\<dots> \<le> 2 ^ 52 * 2 powi e"
      using lt by (intro mult_left_mono power_int_increasing) simp_all
    also have "\<dots> \<le> ratio n d (E - e) * 2 powi e"
      using y by simp
    also have "\<dots> = ratio n d E"
      by (rule ratio_unshift [symmetric])
    finally show False
      using le by simp
  qed
  define j where "j = M * 2 ^ nat (e' - e)"
  have je: "real j * 2 powi e = real M * 2 powi e'"
  proof -
    have "(2::real) powi e' = 2 powi (e' - e) * 2 powi e"
      by (simp add: power_int_add [symmetric])
    moreover have "(2::real) powi (e' - e) = 2 ^ nat (e' - e)"
      using ee by (simp add: power_int_def)
    ultimately show ?thesis
      by (simp add: j_def)
  qed
  have "ratio n d (E - e) * 2 powi e \<le> real j * 2 powi e"
    using le unfolding je ratio_unshift [of n d E e] .
  then have "ratio n d (E - e) \<le> real j"
    using p by simp
  then have mj: "m \<le> j"
    unfolding m_def by (rule scale_round_le [OF d])
  then have "real m * 2 powi e \<le> real j * 2 powi e"
    using p by simp
  then have key: "real m * 2 powi e \<le> real M * 2 powi e'"
    unfolding je .
  have e971: "e' \<le> 971"
    using M by (simp add: is_binary64_def)
  have top: "e + 1 \<le> e'" if "m = 2 ^ 53"
  proof (rule ccontr)
    assume "\<not> e + 1 \<le> e'"
    with ee have "e' = e" by simp
    then have "j = M" by (simp add: j_def)
    with mj that M show False
      by (simp add: is_binary64_def)
  qed
  show ?thesis
  proof (cases "m = 2 ^ 53")
    case True
    with top e971 have "fround s n d E = Fin s (2 ^ 52) (e + 1)"
      unfolding fr m_def [symmetric] by (simp add: pack_def)
    moreover have "real ((2::nat) ^ 52) * 2 powi (e + 1) = real m * 2 powi e"
      using True by (simp add: power_int_add)
    ultimately show ?thesis
      using key by auto
  next
    case False
    with ee e971 have "fround s n d E = Fin s m e"
      unfolding fr m_def [symmetric] by (simp add: pack_def)
    then show ?thesis
      using key by auto
  qed
qed

lemma canonical_unique:
  assumes "is_binary64 (Fin s m e)" and "is_binary64 (Fin t M e')"
    and "real m * 2 powi e = real M * 2 powi e'"
  shows "m = M \<and> e = e'"
proof -
  have aux: "e' \<le> e" if a: "is_binary64 (Fin s m e)" and b: "is_binary64 (Fin t M e')"
    and eq: "real m * 2 powi e = real M * 2 powi e'" for s t m M e e'
  proof (rule ccontr)
    assume "\<not> e' \<le> e"
    then have lt: "e + 1 \<le> e'" and "- 1074 < e'"
      using a by (simp_all add: is_binary64_def)
    then have "2 ^ 52 \<le> M"
      using b by (auto simp: is_binary64_def)
    then have "real ((2::nat) ^ 52) \<le> real M"
      using of_nat_le_iff by blast
    then have M52: "2 ^ 52 \<le> real M"
      by simp
    have "m < 2 ^ 53"
      using a by (simp add: is_binary64_def)
    then have "real m < real ((2::nat) ^ 53)"
      using of_nat_less_iff by blast
    then have "real m * 2 powi e < 2 ^ 53 * 2 powi e"
      by simp
    also have "\<dots> = 2 ^ 52 * 2 powi (e + 1)"
      by (simp add: power_int_add)
    also have "\<dots> \<le> 2 ^ 52 * 2 powi e'"
      using lt by (intro mult_left_mono power_int_increasing) simp_all
    also have "\<dots> \<le> real M * 2 powi e'"
      using M52 by simp
    finally show False
      using eq by simp
  qed
  have "e' \<le> e" "e \<le> e'"
    using aux [OF assms(1,2,3)] aux [OF assms(2,1) assms(3) [symmetric]] by simp_all
  then have "e = e'" by simp
  with assms(3) show ?thesis
    by simp
qed

lemma fround_exact:
  assumes n: "0 < n" and d: "0 < d"
    and M: "is_binary64 (Fin t M e')"
    and eq: "ratio n d E = real M * 2 powi e'"
  shows "fround s n d E = Fin s M e'"
proof -
  obtain m e where fr: "fround s n d E = Fin s m e"
    and le: "real m * 2 powi e \<le> real M * 2 powi e'"
    using fround_upper [OF n d M, of E s] eq by auto
  have "real M * 2 powi e' \<le> real m * 2 powi e"
    using fround_lower [OF n d M, of E s] eq fr by auto
  with le have "real m * 2 powi e = real M * 2 powi e'"
    by simp
  moreover have "is_binary64 (Fin s m e)"
    using fround_binary64 [OF d, of s n E] fr by simp
  ultimately show ?thesis
    using canonical_unique [OF _ M] fr by blast
qed


section \<open>Evaluating the operations on numerals\<close>

lemma newton_loop_step:
  "newton_loop a eps max_iters i x =
     (if i < max_iters then after_step a eps max_iters i x (heron a x) else Exhausted x)"
  by (subst newton_loop.simps) (simp add: Let_def after_step_def heron_def stop_test_def)

lemma ratio_scaled:
  assumes "c \<le> e"
  shows "ratio (m * 2 ^ nat (e - c)) 1 c = real m * 2 powi e"
proof -
  have "(2::real) powi e = 2 powi ((e - c) + c)"
    by simp
  also have "\<dots> = 2 powi (e - c) * 2 powi c"
    by (rule power_int_add) simp
  also have "(2::real) powi (e - c) = 2 ^ nat (e - c)"
    using assms by (simp add: power_int_def)
  finally show ?thesis
    by (simp add: ratio_def)
qed

lemma fadd_zero_left_aux:
  assumes "is_binary64 (Fin s m e)" and "0 < m" and "c \<le> e"
  shows "fround s (m * 2 ^ nat (e - c)) 1 c = Fin s m e"
proof -
  have npos: "0 < m * 2 ^ nat (e - c)"
    using assms(2) by simp
  show ?thesis
    using fround_exact [OF npos _ assms(1) ratio_scaled [OF assms(3)]] by simp
qed

lemma fadd_zero_left:
  assumes "is_binary64 (Fin s m e)" and "0 < m"
  shows "fadd zero (Fin s m e) = Fin s m e"
proof -
  have e: "- 1074 \<le> e"
    using assms(1) by (simp add: is_binary64_def)
  have mn: "min (- 1074) e = - 1074"
    using e by simp
  have k: "aligned (- 1074) False 0 (- 1074) + aligned (- 1074) s m e
      = (if s then - 1 else 1) * int (m * 2 ^ nat (e - (- 1074)))"
    by (simp add: aligned_def)
  have nz: "int (m * 2 ^ nat (e - (- 1074))) \<noteq> 0"
    using assms(2) by simp
  have pos: "0 < int (m * 2 ^ nat (e - (- 1074)))"
    using assms(2) by simp
  show ?thesis
    unfolding zero_def fadd.simps mn Let_def k
    using nz pos fadd_zero_left_aux [OF assms e]
    by (cases s) (simp_all del: of_nat_mult of_nat_power)
qed

lemma abs_double_Fin:
  assumes "is_binary64 (Fin s m e)"
  shows "abs_double (Fin s m e) = (if m = 0 then Fin s m e else Fin False m e)"
proof (cases "s \<and> 0 < m")
  case True
  then have "is_binary64 (Fin False m e)"
    using assms by (simp add: is_binary64_def)
  with True show ?thesis
    by (simp add: abs_double_def flt_zero_right fsub_def fadd_zero_left)
next
  case False
  then show ?thesis
    by (auto simp: abs_double_def flt_zero_right)
qed

lemma round_half_even_eval:
  "round_half_even n d =
     (let q = n div d in let r = n - q * d
      in if 2 * r < d then q
         else if d < 2 * r then q + 1
         else if even q then q else q + 1)"
proof -
  have "n mod d = n - n div d * d"
    by (simp add: minus_div_mult_eq_mod)
  then show ?thesis
    by (simp add: round_half_even_def Let_def)
qed

lemmas eval_simps =
  blen_0 blen_1 blen_One blen_Bit0 blen_Bit1
  fround_def scale_floor_def scale_round_def round_half_even_eval pack_def aligned_def Let_def
  fsub_def fle_def fge_def fne_def one_def half_def
  flt_zero_right flt_zero_left feq_zero_right
  abs_double_Fin is_binary64_def
  heron_def stop_test_def after_step_def newton_loop_step
  sqrt_newton_def sqrt_newton_exit_def initial_guess_def

lemma run_2:
  "sqrt_newton_exit d_2 eps12 100 = Some (Stopped 4 (Fin False 6369051672525772 (- 52)))"
  by (simp add: eval_simps d_2_def eps12_def cong: let_weak_cong)

lemma run_9:
  "sqrt_newton_exit d_9 eps12 100 = Some (Stopped 6 (Fin False 6755399441055744 (- 51)))"
  by (simp add: eval_simps d_9_def eps12_def cong: let_weak_cong)

lemma run_quarter:
  "sqrt_newton_exit d_quarter eps12 100 = Some (Stopped 5 (Fin False 4503599627370496 (- 53)))"
  by (simp add: eval_simps d_quarter_def eps12_def cong: let_weak_cong)

lemma run_1em12:
  "sqrt_newton_exit d_1em12 eps12 100 = Some (Stopped 23 (Fin False 4722366482869670 (- 72)))"
  by (simp add: eval_simps d_1em12_def eps12_def cong: let_weak_cong)

lemma run_1e12:
  "sqrt_newton_exit d_1e12 eps12 100 = Some (Stopped 24 (Fin False 8589934592000000 (- 33)))"
  by (simp add: eval_simps d_1e12_def eps12_def cong: let_weak_cong)

lemma run_3:
  "sqrt_newton_exit d_3 eps12 100 = Some (Stopped 5 (Fin False 7800463371553962 (- 52)))"
  by (simp add: eval_simps d_3_def eps12_def cong: let_weak_cong)

lemma run_2p256:
  "sqrt_newton_exit d_2p256 eps12 100 = Some (Exhausted (Fin False 4503599627370496 104))"
  by (simp add: eval_simps d_2p256_def eps12_def cong: let_weak_cong)

lemma run_3p109:
  "sqrt_newton_exit d_3p109 eps12 100 = Some (Stopped 60 (Fin False 5515760546423086 3))"
  by (simp add: eval_simps d_3p109_def eps12_def cong: let_weak_cong)

lemma decimal_literals:
  "decimal 0 1 = zero"
  "decimal 2 1 = d_2"
  "decimal 9 1 = d_9"
  "decimal 25 100 = d_quarter"
  "decimal 1 (10 ^ 12) = d_1em12"
  "decimal (10 ^ 12) 1 = d_1e12"
  "fneg (decimal 4 1) = d_minus4"
  "decimal 1 (10 ^ 12) = eps12"
  "decimal 1 1 = one"
  "decimal 5 10 = half"
  "decimal 3 1 = d_3"
  by (simp_all add: decimal_def eval_simps zero_def d_2_def d_9_def d_quarter_def d_1em12_def
      d_1e12_def d_minus4_def eps12_def d_3_def cong: let_weak_cong)


section \<open>The degenerate inputs\<close>

text \<open>
  Claim C6. For the input \<open>a = 0\<close>, \<open>sqrt_newton(0, eps, n)\<close> returns exactly \<open>+0.0\<close>, the
  zero with the sign bit clear, whatever \<open>eps\<close> and \<open>n\<close> are (in particular for every
  positive \<open>eps\<close> and every \<open>n \<ge> 0\<close>).
\<close>

theorem zero_identity: "sqrt_newton zero eps n = Fin False 0 (- 1074)"
  by (simp add: sqrt_newton_def zero_def aligned_def)

text \<open>
  Claim C10. For the input \<open>a = -0.0\<close>, with any \<open>eps\<close> and \<open>max_iters\<close>, \<open>sqrt_newton\<close>
  returns \<open>+0.0\<close> and not a NaN: the test \<open>a < 0.0\<close> is false for \<open>-0.0\<close> and the test
  \<open>a == 0.0\<close> is true, so the zero branch is taken.
\<close>

theorem negative_zero_gives_positive_zero:
  "\<not> flt (Fin True 0 (- 1074)) zero \<and> feq (Fin True 0 (- 1074)) zero
   \<and> sqrt_newton (Fin True 0 (- 1074)) eps max_iters = Fin False 0 (- 1074)
   \<and> \<not> is_nan (sqrt_newton (Fin True 0 (- 1074)) eps max_iters)"
  by (simp add: sqrt_newton_def zero_def aligned_def is_nan_def fne_def)





text \<open>
  Claim C9. For \<open>a = +\<infinity>\<close>, any \<open>eps\<close> and any \<open>max_iters \<ge> 1\<close>, the first iteration
  computes \<open>0.5 * (\<infinity> + \<infinity> / \<infinity>)\<close>, a NaN; the stop test never holds on a NaN and the
  loop leaves through the \<open>return\<close> after it with the NaN estimate, so the result is a
  NaN and not \<open>+\<infinity>\<close>. A NaN input gives a NaN in the same way.
\<close>

theorem infinity_and_nan_give_nan:
  assumes "1 \<le> max_iters"
  shows "heron (Inf False) (initial_guess (Inf False)) = NaN
     \<and> sqrt_newton_exit (Inf False) eps max_iters = Some (Exhausted NaN)
     \<and> sqrt_newton (Inf False) eps max_iters = NaN
     \<and> sqrt_newton_exit NaN eps max_iters = Some (Exhausted NaN)
     \<and> sqrt_newton NaN eps max_iters = NaN
     \<and> is_nan NaN \<and> \<not> feq NaN (Inf False)"
proof -
  have g1: "initial_guess (Inf False) = Inf False"
    by (simp add: initial_guess_def fge_def fle_def one_def)
  have g2: "initial_guess NaN = one"
    by (simp add: initial_guess_def fge_def fle_def one_def)
  have s1: "fmul half (fadd (Inf False) (fdiv (Inf False) (Inf False))) = NaN"
    by (simp add: half_def)
  have s2: "fmul half (fadd one (fdiv NaN one)) = NaN"
    by (simp add: half_def one_def)
  have d1: "\<not> flt (Inf False) zero" "\<not> feq (Inf False) zero" "\<not> flt NaN zero" "\<not> feq NaN zero"
    by (simp_all add: zero_def)
  show ?thesis
    using newton_loop_first_NaN [OF assms s1, of eps] newton_loop_first_NaN [OF assms s2, of eps]
    by (simp add: sqrt_newton_def sqrt_newton_exit_def g1 g2 d1 heron_def fmul_NaN_right
        is_nan_def fne_def)
qed

theorem infinity_and_nan_give_nan_witness:
  "(1::int) \<le> 100 \<and> sqrt_newton (Inf False) eps12 100 = NaN \<and> sqrt_newton NaN eps12 100 = NaN"
proof -
  have h: "(1::int) \<le> 100" by simp
  show ?thesis
    using infinity_and_nan_give_nan [OF h, of eps12] by simp
qed

section \<open>The driver's runs\<close>

lemma sqrt_newton_estimate:
  "sqrt_newton_exit a eps max_iters = Some ex \<Longrightarrow> sqrt_newton a eps max_iters = estimate ex"
  by (auto simp: sqrt_newton_exit_def sqrt_newton_def split: if_splits)

lemma result_2: "sqrt_newton d_2 eps12 100 = Fin False 6369051672525772 (- 52)"
  using sqrt_newton_estimate [OF run_2] by simp

lemma result_9: "sqrt_newton d_9 eps12 100 = Fin False 6755399441055744 (- 51)"
  using sqrt_newton_estimate [OF run_9] by simp

lemma result_quarter: "sqrt_newton d_quarter eps12 100 = Fin False 4503599627370496 (- 53)"
  using sqrt_newton_estimate [OF run_quarter] by simp

lemma result_1em12: "sqrt_newton d_1em12 eps12 100 = Fin False 4722366482869670 (- 72)"
  using sqrt_newton_estimate [OF run_1em12] by simp

lemma result_1e12: "sqrt_newton d_1e12 eps12 100 = Fin False 8589934592000000 (- 33)"
  using sqrt_newton_estimate [OF run_1e12] by simp

lemma fdiv_zero_zero: "fdiv zero zero = NaN"
  by (simp add: zero_def)

lemma result_minus4: "sqrt_newton d_minus4 eps12 100 = NaN"
  by (simp add: sqrt_newton_def d_minus4_def flt_zero_right fdiv_zero_zero)

lemma result_zero: "sqrt_newton zero eps12 100 = Fin False 0 (- 1074)"
  by (simp add: sqrt_newton_def zero_def aligned_def)

lemma table_literals:
  "decimal 14142135623730951 (10 ^ 16) = Fin False 6369051672525773 (- 52)"
  "decimal 1414213562373095 (10 ^ 15) = Fin False 6369051672525772 (- 52)"
  "decimal 1 (10 ^ 6) = Fin False 4722366482869645 (- 72)"
  "decimal 10000000000000052 (10 ^ 22) = Fin False 4722366482869670 (- 72)"
  "decimal (10 ^ 6) 1 = Fin False 8589934592000000 (- 33)"
  by (simp_all add: decimal_def eval_simps cong: let_weak_cong)

text \<open>
  Claim C8, as stated, fails: for the input \<open>2.0\<close> the program does not return the table's
  \<open>1.4142135623730951\<close>, the binary64 nearest to the square root of two, but its
  predecessor; and for the input \<open>1e-12\<close> the result is 25 units in the last place above
  \<open>1.0e-6\<close>, not within one.
\<close>

theorem driver_table_counterexample:
  "sqrt_newton d_2 eps12 100 \<noteq> decimal 14142135623730951 (10 ^ 16)
   \<and> sqrt_newton d_1em12 eps12 100 = Fin False (4722366482869645 + 25) (- 72)
   \<and> decimal 1 (10 ^ 6) = Fin False 4722366482869645 (- 72)"
  unfolding result_2 result_1em12 table_literals by simp

text \<open>
  Claim C8, amended. With \<open>eps = 1e-12\<close> and \<open>max_iters = 100\<close> the driver's vector
  \<open>[0.0, 2.0, 9.0, 0.25, 1e-12, 1e12, -4.0]\<close> gives, bit for bit: \<open>+0.0\<close>;
  \<open>1.414213562373095\<close>, one unit in the last place below \<open>1.4142135623730951\<close>; \<open>3.0\<close>;
  \<open>0.5\<close>; \<open>1.0000000000000052e-06\<close>, 25 units in the last place above \<open>1.0e-6\<close>;
  \<open>1000000.0\<close>; and a NaN.
\<close>

theorem driver_table:
  "tests = [decimal 0 1, decimal 2 1, decimal 9 1, decimal 25 100, decimal 1 (10 ^ 12),
            decimal (10 ^ 12) 1, fneg (decimal 4 1)]
   \<and> eps12 = decimal 1 (10 ^ 12)
   \<and> driver_results =
       [Fin False 0 (- 1074), decimal 1414213562373095 (10 ^ 15), decimal 3 1, decimal 5 10,
        decimal 10000000000000052 (10 ^ 22), decimal (10 ^ 6) 1, NaN]
   \<and> decimal 1414213562373095 (10 ^ 15) = Fin False 6369051672525772 (- 52)
   \<and> decimal 14142135623730951 (10 ^ 16) = Fin False (6369051672525772 + 1) (- 52)
   \<and> decimal 10000000000000052 (10 ^ 22) = Fin False (4722366482869645 + 25) (- 72)
   \<and> decimal 1 (10 ^ 6) = Fin False 4722366482869645 (- 72)"
  unfolding driver_results_def table_literals decimal_literals
  unfolding tests_def list.map result_zero result_2 result_9 result_quarter
      result_1em12 result_1e12 result_minus4
  by (simp add: d_3_def half_def eps12_def d_1em12_def)

text \<open>
  Claim C2, as stated, fails: for the positive normal input \<open>2^256\<close> the stop test does not
  hold in any of the 100 iterations, and the loop leaves through the iteration cap with
  the estimate \<open>2^156\<close>.
\<close>

theorem stop_within_60_counterexample:
  "flt zero d_2p256 \<and> is_binary64 d_2p256
   \<and> sqrt_newton_exit d_2p256 eps12 100 = Some (Exhausted (Fin False 4503599627370496 104))
   \<and> \<not> stopped_within 100 (sqrt_newton_exit d_2p256 eps12 100)"
  by (simp add: run_2p256) (simp add: d_2p256_def flt_zero_left is_binary64_def)


section \<open>The loop and the sequence of iterates\<close>

lemma newton_loop_stops:
  assumes "\<forall>k<n. \<not> stops a eps k" and "stops a eps n" and "int n < max_iters" and "j \<le> n"
  shows "newton_loop a eps max_iters (int j) (iterate a j) = Stopped (int n) (iterate a (Suc n))"
  using assms(4)
proof (induction "n - j" arbitrary: j)
  case 0
  then have "j = n" by simp
  with assms(2,3) show ?case
    by (subst newton_loop_step) (simp add: after_step_def stops_def)
next
  case (Suc d)
  then have lt: "j < n" and d: "d = n - Suc j" and le: "Suc j \<le> n"
    by simp_all
  from lt assms(1) have ns: "\<not> stop_test eps (iterate a j) (heron a (iterate a j))"
    by (simp add: stops_def)
  have "int j < max_iters"
    using lt assms(3) by simp
  moreover have "newton_loop a eps max_iters (int (Suc j)) (iterate a (Suc j))
      = Stopped (int n) (iterate a (Suc n))"
    using Suc.hyps(1) [OF d le] .
  ultimately show ?case
    using ns by (subst newton_loop_step) (simp add: after_step_def add.commute)
qed

lemma newton_loop_exhausted:
  assumes "\<forall>k<nat max_iters. \<not> stops a eps k" and "j \<le> nat max_iters"
  shows "newton_loop a eps max_iters (int j) (iterate a j) = Exhausted (iterate a (nat max_iters))"
  using assms(2)
proof (induction "nat max_iters - j" arbitrary: j)
  case 0
  then have j: "j = nat max_iters" by simp
  then have "\<not> int j < max_iters" by simp
  then show ?case
    using j by (subst newton_loop_step) simp
next
  case (Suc d)
  then have lt: "j < nat max_iters" and d: "d = nat max_iters - Suc j"
    and le: "Suc j \<le> nat max_iters"
    by simp_all
  from lt assms(1) have ns: "\<not> stop_test eps (iterate a j) (heron a (iterate a j))"
    by (simp add: stops_def)
  have "int j < max_iters"
    using lt by simp
  moreover have "newton_loop a eps max_iters (int (Suc j)) (iterate a (Suc j))
      = Exhausted (iterate a (nat max_iters))"
    using Suc.hyps(1) [OF d le] .
  ultimately show ?case
    using ns by (subst newton_loop_step) (simp add: after_step_def add.commute)
qed

lemma flt_zero_dispatch: "flt zero a \<Longrightarrow> \<not> flt a zero \<and> \<not> feq a zero"
  by (cases a) (auto simp: flt_zero_left flt_zero_right feq_zero_right, simp_all add: zero_def)

text \<open>
  Claim C5. For every positive \<open>a\<close>, with \<open>x\<^sub>0\<close> the initial guess and
  \<open>x\<^sub>n\<^sub>+\<^sub>1 = 0.5 * (x\<^sub>n + a / x\<^sub>n)\<close>, \<open>sqrt_newton\<close> returns the first iterate \<open>x\<^sub>n\<^sub>+\<^sub>1\<close>
  with \<open>n < max_iters\<close> for which \<open>|x\<^sub>n\<^sub>+\<^sub>1 - x\<^sub>n| \<le> eps * (1 + |x\<^sub>n\<^sub>+\<^sub>1|)\<close>. The comparison is
  not strict: the test holds when the difference is less than the tolerance or equal
  to it. If there is no such \<open>n\<close> below \<open>max_iters\<close>, the result is the last estimate
  computed, \<open>x\<close> with index \<open>max_iters\<close> (\<open>x\<^sub>0\<close> when \<open>max_iters \<le> 0\<close>).
\<close>

theorem first_stopping_iterate:
  assumes "flt zero a"
  shows "iterate a 0 = (if fge a one then a else one)
     \<and> iterate a (Suc n) = fmul half (fadd (iterate a n) (fdiv a (iterate a n)))
     \<and> (stops a eps n \<longleftrightarrow>
          flt (abs_double (fsub (iterate a (Suc n)) (iterate a n)))
              (fmul eps (fadd one (abs_double (iterate a (Suc n)))))
          \<or> feq (abs_double (fsub (iterate a (Suc n)) (iterate a n)))
              (fmul eps (fadd one (abs_double (iterate a (Suc n))))))
     \<and> (int n < max_iters \<and> stops a eps n \<and> (\<forall>k<n. \<not> stops a eps k)
          \<longrightarrow> sqrt_newton a eps max_iters = iterate a (Suc n))
     \<and> ((\<forall>k<nat max_iters. \<not> stops a eps k)
          \<longrightarrow> sqrt_newton a eps max_iters = iterate a (nat max_iters))"
proof -
  have run: "sqrt_newton a eps max_iters
      = estimate (newton_loop a eps max_iters (int 0) (iterate a 0))"
    using flt_zero_dispatch [OF assms] by (simp add: sqrt_newton_def)
  have a: "sqrt_newton a eps max_iters = iterate a (Suc n)"
    if "int n < max_iters" "stops a eps n" "\<forall>k<n. \<not> stops a eps k"
    unfolding run using newton_loop_stops [OF that(3,2,1), of 0] by simp
  have b: "sqrt_newton a eps max_iters = iterate a (nat max_iters)"
    if "\<forall>k<nat max_iters. \<not> stops a eps k"
    unfolding run using newton_loop_exhausted [OF that, of 0] by simp
  show ?thesis
    using a b by (simp add: initial_guess_def heron_def stops_def stop_test_def fle_def)
qed

lemma quarter_iterates:
  "iterate d_quarter 0 = Fin False 4503599627370496 (- 52)"
  "iterate d_quarter (Suc 0) = Fin False 5629499534213120 (- 53)"
  "iterate d_quarter (Suc (Suc 0)) = Fin False 4616189618054758 (- 53)"
  "iterate d_quarter (Suc (Suc (Suc 0))) = Fin False 4504972676037377 (- 53)"
  "iterate d_quarter (Suc (Suc (Suc (Suc 0)))) = Fin False 4503599836612902 (- 53)"
  "iterate d_quarter (Suc (Suc (Suc (Suc (Suc 0))))) = Fin False 4503599627370501 (- 53)"
  "iterate d_quarter (Suc (Suc (Suc (Suc (Suc (Suc 0)))))) = Fin False 4503599627370496 (- 53)"
proof -
  show i0: "iterate d_quarter 0 = Fin False 4503599627370496 (- 52)"
    by (simp add: eval_simps d_quarter_def cong: let_weak_cong)
  show i1: "iterate d_quarter (Suc 0) = Fin False 5629499534213120 (- 53)"
    unfolding iterate.simps i0 by (simp add: eval_simps d_quarter_def cong: let_weak_cong)
  show i2: "iterate d_quarter (Suc (Suc 0)) = Fin False 4616189618054758 (- 53)"
    unfolding iterate.simps i1 by (simp add: eval_simps d_quarter_def cong: let_weak_cong)
  show i3: "iterate d_quarter (Suc (Suc (Suc 0))) = Fin False 4504972676037377 (- 53)"
    unfolding iterate.simps i2 by (simp add: eval_simps d_quarter_def cong: let_weak_cong)
  show i4: "iterate d_quarter (Suc (Suc (Suc (Suc 0)))) = Fin False 4503599836612902 (- 53)"
    unfolding iterate.simps i3 by (simp add: eval_simps d_quarter_def cong: let_weak_cong)
  show i5: "iterate d_quarter (Suc (Suc (Suc (Suc (Suc 0))))) = Fin False 4503599627370501 (- 53)"
    unfolding iterate.simps i4 by (simp add: eval_simps d_quarter_def cong: let_weak_cong)
  show i6: "iterate d_quarter (Suc (Suc (Suc (Suc (Suc (Suc 0)))))) = Fin False 4503599627370496 (- 53)"
    unfolding iterate.simps i5 by (simp add: eval_simps d_quarter_def cong: let_weak_cong)
qed

lemma quarter_stops:
  "\<not> stops d_quarter eps12 0"
  "\<not> stops d_quarter eps12 (Suc 0)"
  "\<not> stops d_quarter eps12 (Suc (Suc 0))"
  "\<not> stops d_quarter eps12 (Suc (Suc (Suc 0)))"
  "\<not> stops d_quarter eps12 (Suc (Suc (Suc (Suc 0))))"
  "stops d_quarter eps12 (Suc (Suc (Suc (Suc (Suc 0)))))"
  unfolding stops_def quarter_iterates
  by (simp_all add: eval_simps eps12_def cong: let_weak_cong)

theorem first_stopping_iterate_witness:
  "flt zero d_quarter
   \<and> sqrt_newton d_quarter eps12 100 = iterate d_quarter 6
   \<and> iterate d_quarter 6 = Fin False 4503599627370496 (- 53)
   \<and> sqrt_newton d_quarter eps12 2 = iterate d_quarter 2
   \<and> iterate d_quarter 2 = Fin False 4616189618054758 (- 53)"
proof -
  have pos: "flt zero d_quarter"
    by (simp add: d_quarter_def flt_zero_left)
  have n5: "(5::nat) = Suc (Suc (Suc (Suc (Suc 0))))" and n6: "(6::nat) = Suc (Suc (Suc (Suc (Suc (Suc 0)))))"
    and n2: "(2::nat) = Suc (Suc 0)"
    by simp_all
  have h1: "int 5 < 100" by simp
  have h2: "stops d_quarter eps12 5"
    unfolding n5 by (rule quarter_stops)
  have h3: "\<forall>k<5. \<not> stops d_quarter eps12 k"
    unfolding n5 using quarter_stops by (simp add: All_less_Suc)
  have h4: "\<forall>k<nat 2. \<not> stops d_quarter eps12 k"
    using quarter_stops by (simp add: n2 All_less_Suc)
  from first_stopping_iterate [OF pos, of 5 eps12 100] h1 h2 h3
  have r1: "sqrt_newton d_quarter eps12 100 = iterate d_quarter (Suc 5)"
    by blast
  from first_stopping_iterate [OF pos, of 0 eps12 2] h4
  have r2: "sqrt_newton d_quarter eps12 2 = iterate d_quarter (nat 2)"
    by blast
  show ?thesis
    using pos r1 r2 quarter_iterates by (simp add: n6 n2)
qed


section \<open>Strictly positive estimates\<close>

lemma min_subnormal_pos: "0 < min_subnormal"
  unfolding min_subnormal_def by (rule zero_less_power_int) simp

lemma aligned_value:
  assumes "E \<le> e"
  shows "real_of_int (aligned E s m e) * 2 powi E = valof (Fin s m e)"
proof -
  have "(2::real) powi e = 2 powi ((e - E) + E)"
    by simp
  also have "\<dots> = 2 powi (e - E) * 2 powi E"
    by (rule power_int_add) simp
  also have "(2::real) powi (e - E) = 2 ^ nat (e - E)"
    using assms by (simp add: power_int_def)
  finally show ?thesis
    by (simp add: aligned_def)
qed

lemma fadd_nonneg:
  assumes "0 < m1 \<or> 0 < m2"
  obtains n E where "0 < n"
    and "fadd (Fin False m1 e1) (Fin False m2 e2) = fround False n 1 E"
    and "ratio n 1 E = real m1 * 2 powi e1 + real m2 * 2 powi e2"
proof -
  define E where "E = min e1 e2"
  define n where "n = m1 * 2 ^ nat (e1 - E) + m2 * 2 ^ nat (e2 - E)"
  have k: "aligned E False m1 e1 + aligned E False m2 e2 = int n"
    by (simp add: aligned_def n_def)
  have npos: "0 < n"
    using assms by (auto simp: n_def)
  have fa: "fadd (Fin False m1 e1) (Fin False m2 e2) = fround False n 1 E"
    using npos by (simp add: Let_def E_def [symmetric] k del: of_nat_add of_nat_mult of_nat_power)
  have "real n * 2 powi E = real_of_int (aligned E False m1 e1 + aligned E False m2 e2) * 2 powi E"
    unfolding k by simp
  also have "\<dots> = real_of_int (aligned E False m1 e1) * 2 powi E
      + real_of_int (aligned E False m2 e2) * 2 powi E"
    by (simp add: algebra_simps)
  also have "\<dots> = valof (Fin False m1 e1) + valof (Fin False m2 e2)"
  proof -
    have "E \<le> e1" and "E \<le> e2"
      by (simp_all add: E_def)
    then show ?thesis
      by (simp only: aligned_value)
  qed
  finally have "ratio n 1 E = real m1 * 2 powi e1 + real m2 * 2 powi e2"
    by (simp add: ratio_def)
  with npos fa show ?thesis
    by (rule that)
qed

lemma tiny_cases:
  assumes "is_binary64 (Fin s m e)" and "0 < m"
  shows "(m = 1 \<and> e = - 1074) \<or> 2 * min_subnormal \<le> real m * 2 powi e"
proof (cases "m = 1 \<and> e = - 1074")
  case True
  then show ?thesis by simp
next
  case False
  have e: "- 1074 \<le> e"
    using assms(1) by (simp add: is_binary64_def)
  have "2 \<le> m"
  proof (cases "e = - 1074")
    case True
    with False assms(2) show ?thesis by simp
  next
    case False
    with assms(1) have "2 ^ 52 \<le> m"
      by (auto simp: is_binary64_def)
    then show ?thesis by simp
  qed
  then have m2: "2 \<le> real m"
    by simp
  have "min_subnormal \<le> 2 powi e"
    unfolding min_subnormal_def using e by (intro power_int_increasing) simp_all
  with m2 have "2 * min_subnormal \<le> real m * 2 powi e"
    using min_subnormal_pos by (intro mult_mono) simp_all
  then show ?thesis ..
qed

lemma fround_above_min:
  assumes "0 < n" and "0 < d" and "j < 2 ^ 52" and "real j * min_subnormal \<le> ratio n d E"
  shows "is_binary64 (fround False n d E) \<and>
     (fround False n d E = Inf False
      \<or> (\<exists>m e. fround False n d E = Fin False m e
            \<and> real j * min_subnormal \<le> real m * 2 powi e))"
proof -
  have M: "is_binary64 (Fin False j (- 1074))"
    using assms(3) by (simp add: is_binary64_def)
  show ?thesis
    using fround_lower [OF assms(1,2) M, of E False] assms(4) fround_binary64 [OF assms(2)]
    unfolding min_subnormal_def by blast
qed

lemma half_step_positive:
  assumes "2 * min_subnormal \<le> real ms * 2 powi es"
  shows "positive (fmul half (Fin False ms es)) \<and> is_binary64 (fmul half (Fin False ms es))"
proof -
  have ms: "0 < ms"
  proof (rule ccontr)
    assume "\<not> 0 < ms"
    with assms min_subnormal_pos show False by simp
  qed
  define n where "n = 2 ^ 52 * ms"
  have fm: "fmul half (Fin False ms es) = fround False n 1 (- 53 + es)"
    by (simp add: half_def n_def)
  have npos: "0 < n"
    using ms by (simp add: n_def)
  have "(2::real) powi (- 53 + es) = 2 powi (- 53) * 2 powi es"
    by (rule power_int_add) simp
  then have "ratio n 1 (- 53 + es) = (real ms * 2 powi es) / 2"
    by (simp add: ratio_def n_def)
  with assms have le: "real 1 * min_subnormal \<le> ratio n 1 (- 53 + es)"
    by simp
  from fround_above_min [OF npos _ _ le]
  have b: "is_binary64 (fround False n 1 (- 53 + es))"
    and c: "fround False n 1 (- 53 + es) = Inf False
      \<or> (\<exists>m e. fround False n 1 (- 53 + es) = Fin False m e
            \<and> real 1 * min_subnormal \<le> real m * 2 powi e)"
    by simp_all
  from c have "positive (fround False n 1 (- 53 + es))"
  proof
    assume "fround False n 1 (- 53 + es) = Inf False"
    then show ?thesis by simp
  next
    assume "\<exists>m e. fround False n 1 (- 53 + es) = Fin False m e
            \<and> real 1 * min_subnormal \<le> real m * 2 powi e"
    then obtain m e where fr: "fround False n 1 (- 53 + es) = Fin False m e"
      and le: "real 1 * min_subnormal \<le> real m * 2 powi e"
      by blast
    have "0 < m"
    proof (rule ccontr)
      assume "\<not> 0 < m"
      with le min_subnormal_pos show False by simp
    qed
    with fr show ?thesis by simp
  qed
  with b show ?thesis
    unfolding fm by simp
qed

lemma sum_step_positive:
  assumes "2 * min_subnormal \<le> real m1 * 2 powi e1 + real m2 * 2 powi e2"
  shows "positive (fmul half (fadd (Fin False m1 e1) (Fin False m2 e2)))
     \<and> is_binary64 (fmul half (fadd (Fin False m1 e1) (Fin False m2 e2)))"
proof -
  have "0 < m1 \<or> 0 < m2"
  proof (rule ccontr)
    assume "\<not> (0 < m1 \<or> 0 < m2)"
    with assms min_subnormal_pos show False by simp
  qed
  then obtain n E where npos: "0 < n"
    and fa: "fadd (Fin False m1 e1) (Fin False m2 e2) = fround False n 1 E"
    and r: "ratio n 1 E = real m1 * 2 powi e1 + real m2 * 2 powi e2"
    by (rule fadd_nonneg)
  have le: "real 2 * min_subnormal \<le> ratio n 1 E"
    using assms r by simp
  from fround_above_min [OF npos _ _ le]
  have c: "fround False n 1 E = Inf False
      \<or> (\<exists>m e. fround False n 1 E = Fin False m e \<and> real 2 * min_subnormal \<le> real m * 2 powi e)"
    by simp
  then show ?thesis
  proof
    assume "fround False n 1 E = Inf False"
    then show ?thesis
      unfolding fa by (simp add: half_def is_binary64_def)
  next
    assume "\<exists>m e. fround False n 1 E = Fin False m e \<and> real 2 * min_subnormal \<le> real m * 2 powi e"
    then obtain m e where fr: "fround False n 1 E = Fin False m e"
      and le: "2 * min_subnormal \<le> real m * 2 powi e"
      by auto
    show ?thesis
      unfolding fa fr by (rule half_step_positive [OF le])
  qed
qed

lemma heron_positive:
  assumes a: "is_binary64 (Fin False ma ea)" "0 < ma"
    and x: "is_binary64 x" "positive x"
  shows "positive (heron (Fin False ma ea) x) \<and> is_binary64 (heron (Fin False ma ea) x)"
proof (cases x)
  case NaN
  with x(2) show ?thesis by simp
next
  case (Inf s)
  with x(2) show ?thesis
    by (simp add: heron_def half_def is_binary64_def)
next
  case (Fin s m e)
  with x(2) have s: "s = False" and m: "0 < m"
    by simp_all
  have xb: "is_binary64 (Fin False m e)"
    using x(1) Fin s by simp
  have q: "fdiv (Fin False ma ea) (Fin False m e) = fround False ma m (ea - e)"
    using m by simp
  have sum: "positive (fmul half (fadd (Fin False m e) (Fin False mq eq)))
     \<and> is_binary64 (fmul half (fadd (Fin False m e) (Fin False mq eq)))"
    if fr: "fround False ma m (ea - e) = Fin False mq eq" for mq eq
  proof -
    have nonneg: "0 \<le> real mq * 2 powi eq"
      by simp
    from tiny_cases [OF xb m]
    have "2 * min_subnormal \<le> real m * 2 powi e + real mq * 2 powi eq"
    proof
      assume "2 * min_subnormal \<le> real m * 2 powi e"
      with nonneg show ?thesis by linarith
    next
      assume tiny: "m = 1 \<and> e = - 1074"
      have ea: "- 1074 \<le> ea"
        using a(1) by (simp add: is_binary64_def)
      have one_le: "1 \<le> real ma * 2 powi (ea - e)"
      proof -
        have "1 \<le> real ma"
          using a(2) by simp
        moreover have "1 \<le> (2::real) powi (ea - e)"
          using ea tiny by (intro one_le_power_int) simp_all
        ultimately show ?thesis
          using mult_mono [of 1 "real ma" 1 "2 powi (ea - e)"] by simp
      qed
      have "(2::real) powi (- 1074) \<le> 2 powi 0"
        by (intro power_int_increasing) simp_all
      then have "min_subnormal \<le> 1"
        unfolding min_subnormal_def by (simp only: power_int_0_right)
      then have "real 1 * min_subnormal \<le> ratio ma m (ea - e)"
        using one_le tiny by (simp add: ratio_def)
      from fround_above_min [OF a(2) m _ this] fr
      have "min_subnormal \<le> real mq * 2 powi eq"
        by simp
      moreover have "real m * 2 powi e = min_subnormal"
        using tiny by (simp add: min_subnormal_def)
      ultimately show ?thesis
        by linarith
    qed
    then show ?thesis
      by (rule sum_step_positive)
  qed
  from fround_sign [of False ma m "ea - e"] show ?thesis
  proof
    assume "fround False ma m (ea - e) = Inf False"
    then show ?thesis
      unfolding heron_def Fin s q by (simp add: half_def is_binary64_def)
  next
    assume "\<exists>mq eq. fround False ma m (ea - e) = Fin False mq eq"
    then obtain mq eq where fr: "fround False ma m (ea - e) = Fin False mq eq"
      by blast
    show ?thesis
      unfolding heron_def Fin s q fr by (rule sum [OF fr])
  qed
qed

section \<open>Invariants of the loop\<close>

lemma newton_loop_invariant:
  assumes step: "\<And>x. P x \<Longrightarrow> P (heron a x)" and "P x"
  shows "P (estimate (newton_loop a eps max_iters i x))"
  using assms(2)
proof (induction "nat (max_iters - i)" arbitrary: i x)
  case 0
  then have "\<not> i < max_iters" by simp
  with 0(2) show ?case
    by (subst newton_loop_step) simp
next
  case (Suc n)
  then have lt: "i < max_iters" and n: "n = nat (max_iters - (i + 1))"
    by simp_all
  have "P (heron a x)"
    using Suc.prems by (rule step)
  then have "P (estimate (newton_loop a eps max_iters (i + 1) (heron a x)))"
    using Suc.hyps(1) [OF n] by simp
  with \<open>P (heron a x)\<close> lt show ?case
    by (subst newton_loop_step) (simp add: after_step_def)
qed

lemma newton_divisors_step:
  "newton_divisors a eps max_iters i x =
     (if i < max_iters then
        x # (if stop_test eps x (heron a x) then []
             else newton_divisors a eps max_iters (i + 1) (heron a x))
      else [])"
  by (subst newton_divisors.simps) (simp add: Let_def heron_def stop_test_def)

lemma newton_divisors_invariant:
  assumes step: "\<And>x. P x \<Longrightarrow> P (heron a x)" and "P x"
  shows "\<forall>d \<in> set (newton_divisors a eps max_iters i x). P d"
  using assms(2)
proof (induction "nat (max_iters - i)" arbitrary: i x)
  case 0
  then have "\<not> i < max_iters" by simp
  then show ?case
    by (subst newton_divisors_step) simp
next
  case (Suc n)
  then have lt: "i < max_iters" and n: "n = nat (max_iters - (i + 1))"
    by simp_all
  have "P (heron a x)"
    using Suc.prems by (rule step)
  then have "\<forall>d \<in> set (newton_divisors a eps max_iters (i + 1) (heron a x)). P d"
    using Suc.hyps(1) [OF n] by simp
  with Suc.prems lt show ?case
    by (subst newton_divisors_step) simp
qed

text \<open>The list of divisors belongs to the loop: its length is the number of iterations
  the loop runs, and its entries are the iterates \<open>x\<^sub>0, x\<^sub>1, \<dots>\<close> in order.\<close>

lemma newton_divisors_length:
  "(case newton_loop a eps max_iters i x of
      Stopped j r \<Rightarrow> int (length (newton_divisors a eps max_iters i x)) = j - i + 1
    | Exhausted r \<Rightarrow> length (newton_divisors a eps max_iters i x) = nat (max_iters - i))"
proof (induction "nat (max_iters - i)" arbitrary: i x)
  case 0
  then have "\<not> i < max_iters" by simp
  then show ?case
    by (subst newton_divisors_step, subst newton_loop_step) simp
next
  case (Suc n)
  then have lt: "i < max_iters" and n: "n = nat (max_iters - (i + 1))"
    by simp_all
  show ?case
  proof (cases "stop_test eps x (heron a x)")
    case True
    with lt show ?thesis
      by (subst newton_divisors_step, subst newton_loop_step) (simp add: after_step_def)
  next
    case False
    have ds: "newton_divisors a eps max_iters i x =
        x # newton_divisors a eps max_iters (i + 1) (heron a x)"
      using lt False by (subst newton_divisors_step) simp
    have lp: "newton_loop a eps max_iters i x = newton_loop a eps max_iters (i + 1) (heron a x)"
      using lt False by (subst newton_loop_step) (simp add: after_step_def)
    show ?thesis
      unfolding ds lp using lt Suc.hyps(1) [OF n, of "heron a x"]
      by (auto split: loop_exit.splits)
  qed
qed


lemma is_binary64_one: "is_binary64 one"
  by (simp add: one_def is_binary64_def)

lemma initial_guess_positive:
  assumes "is_binary64 a" and "positive a"
  shows "positive (initial_guess a) \<and> is_binary64 (initial_guess a)"
  using assms by (simp add: initial_guess_def is_binary64_one) (simp add: one_def)

lemma positive_not_zero: "positive x \<Longrightarrow> \<not> feq x zero"
  by (cases x) (simp_all add: feq_zero_right, simp add: zero_def)

lemma positive_finite_cases:
  assumes "positive a" and "is_finite a"
  obtains ma ea where "a = Fin False ma ea" and "0 < ma"
  using assms by (cases a) auto

lemma heron_NaN_left: "heron NaN x = NaN"
  by (cases x) (simp_all add: heron_def fmul_NaN_right)

lemma heron_Inf_left: "x = Inf False \<or> x = NaN \<Longrightarrow> heron (Inf False) x = NaN"
  by (auto simp: heron_def fmul_NaN_right)

lemma reaches_loop_cases:
  assumes "\<not> flt a zero" and "\<not> feq a zero"
  shows "a = NaN \<or> a = Inf False \<or> (positive a \<and> is_finite a)"
proof (cases a)
  case NaN
  then show ?thesis by simp
next
  case (Inf s)
  with assms(1) show ?thesis
    by (cases s) (simp_all add: zero_def)
next
  case (Fin s m e)
  with assms show ?thesis
    by (simp add: flt_zero_right feq_zero_right)
qed

lemma sqrt_newton_divisors_positive:
  assumes "is_binary64 a" and pa: "positive a" and fa: "is_finite a"
  shows "\<forall>x \<in> set (sqrt_newton_divisors a eps max_iters). positive x"
proof -
  obtain ma ea where a: "a = Fin False ma ea" and ma: "0 < ma"
    using positive_finite_cases [OF pa fa] by blast
  have ab: "is_binary64 (Fin False ma ea)"
    using assms(1) a by simp
  have "\<forall>d \<in> set (newton_divisors a eps max_iters 0 (initial_guess a)).
      positive d \<and> is_binary64 d"
  proof (rule newton_divisors_invariant)
    show "positive (initial_guess a) \<and> is_binary64 (initial_guess a)"
      using assms(1) pa by (rule initial_guess_positive)
  next
    fix x
    assume "positive x \<and> is_binary64 x"
    then show "positive (heron a x) \<and> is_binary64 (heron a x)"
      unfolding a using heron_positive [OF ab ma] by blast
  qed
  then show ?thesis
    by (simp add: sqrt_newton_divisors_def)
qed

text \<open>
  Claim C7. For every input \<open>(a, eps, max_iters)\<close>, every divisor \<open>x\<close> at which \<open>sqrt_newton\<close>
  evaluates the quotient \<open>a / x\<close> is different from zero. For a positive finite \<open>a\<close> every
  such \<open>x\<close> is strictly positive, and the branches for \<open>a < 0\<close> and \<open>a = 0\<close> return before
  any division by the estimate.
\<close>

theorem divisor_never_zero:
  assumes "is_binary64 a"
  shows "(\<forall>x \<in> set (sqrt_newton_divisors a eps max_iters). \<not> feq x zero)
     \<and> (positive a \<and> is_finite a \<longrightarrow>
          (\<forall>x \<in> set (sqrt_newton_divisors a eps max_iters). positive x))
     \<and> (flt a zero \<or> feq a zero \<longrightarrow> sqrt_newton_divisors a eps max_iters = [])"
proof -
  have pos: "\<forall>x \<in> set (sqrt_newton_divisors a eps max_iters). positive x"
    if pa: "positive a" and fa: "is_finite a"
    using assms pa fa by (rule sqrt_newton_divisors_positive)
  have nz: "\<forall>x \<in> set (sqrt_newton_divisors a eps max_iters). \<not> feq x zero"
  proof (cases "flt a zero \<or> feq a zero")
    case True
    then show ?thesis
      by (auto simp: sqrt_newton_divisors_def)
  next
    case False
    then have run: "sqrt_newton_divisors a eps max_iters
        = newton_divisors a eps max_iters 0 (initial_guess a)"
      by (simp add: sqrt_newton_divisors_def)
    from False reaches_loop_cases [of a]
    consider "a = NaN" | "a = Inf False" | "positive a \<and> is_finite a"
      by blast
    then show ?thesis
    proof cases
      case 1
      have "\<forall>d \<in> set (newton_divisors a eps max_iters 0 (initial_guess a)). d = one \<or> d = NaN"
      proof (rule newton_divisors_invariant)
        show "initial_guess a = one \<or> initial_guess a = NaN"
          using 1 by (simp add: initial_guess_def fge_def fle_def one_def)
      next
        fix x :: double
        show "heron a x = one \<or> heron a x = NaN"
          using 1 by (simp add: heron_NaN_left)
      qed
      then show ?thesis
        unfolding run by (auto simp: one_def zero_def aligned_def)
    next
      case 2
      have "\<forall>d \<in> set (newton_divisors a eps max_iters 0 (initial_guess a)).
          d = Inf False \<or> d = NaN"
      proof (rule newton_divisors_invariant)
        show "initial_guess a = Inf False \<or> initial_guess a = NaN"
          using 2 by (simp add: initial_guess_def fge_def fle_def one_def)
      next
        fix x
        assume "x = Inf False \<or> x = NaN"
        then show "heron a x = Inf False \<or> heron a x = NaN"
          using 2 by (simp add: heron_Inf_left)
      qed
      then show ?thesis
        unfolding run by (auto simp: zero_def)
    next
      case 3
      with pos have "\<forall>x \<in> set (sqrt_newton_divisors a eps max_iters). positive x"
        by blast
      then show ?thesis
        using positive_not_zero by blast
    qed
  qed
  have "flt a zero \<or> feq a zero \<longrightarrow> sqrt_newton_divisors a eps max_iters = []"
    by (auto simp: sqrt_newton_divisors_def)
  with pos nz show ?thesis
    by blast
qed

lemma divisors_2:
  "sqrt_newton_divisors d_2 eps12 100 =
     [Fin False 4503599627370496 (- 51), Fin False 6755399441055744 (- 52),
      Fin False 6380099472108202 (- 52), Fin False 6369061237727392 (- 52),
      Fin False 6369051672532955 (- 52)]"
  unfolding sqrt_newton_divisors_def
  by (simp add: newton_divisors_step eval_simps d_2_def eps12_def cong: let_weak_cong)

theorem divisor_never_zero_witness:
  "is_binary64 d_2
   \<and> sqrt_newton_divisors d_2 eps12 100 =
     [Fin False 4503599627370496 (- 51), Fin False 6755399441055744 (- 52),
      Fin False 6380099472108202 (- 52), Fin False 6369061237727392 (- 52),
      Fin False 6369051672532955 (- 52)]
   \<and> \<not> feq (Fin False 4503599627370496 (- 51)) zero
   \<and> \<not> feq (Fin False 6755399441055744 (- 52)) zero
   \<and> \<not> feq (Fin False 6380099472108202 (- 52)) zero
   \<and> \<not> feq (Fin False 6369061237727392 (- 52)) zero
   \<and> \<not> feq (Fin False 6369051672532955 (- 52)) zero"
proof -
  have b: "is_binary64 d_2"
    by (simp add: d_2_def is_binary64_def)
  show ?thesis
    using b divisor_never_zero [OF b, of eps12 100] unfolding divisors_2 by simp
qed

lemma sqrt_newton_positive:
  assumes "is_binary64 a" and "positive a" and "is_finite a"
  shows "positive (sqrt_newton a eps max_iters)"
proof -
  obtain ma ea where a: "a = Fin False ma ea" and ma: "0 < ma"
    using positive_finite_cases [OF assms(2,3)] by blast
  have ab: "is_binary64 (Fin False ma ea)"
    using assms(1) a by simp
  have "(\<lambda>x. positive x \<and> is_binary64 x)
      (estimate (newton_loop a eps max_iters 0 (initial_guess a)))"
  proof (rule newton_loop_invariant)
    show "positive (initial_guess a) \<and> is_binary64 (initial_guess a)"
      using assms(1,2) by (rule initial_guess_positive)
  next
    fix x
    assume "positive x \<and> is_binary64 x"
    then show "positive (heron a x) \<and> is_binary64 (heron a x)"
      unfolding a using heron_positive [OF ab ma] by blast
  qed
  moreover have "\<not> flt a zero" "\<not> feq a zero"
    using ma by (simp_all add: a flt_zero_right feq_zero_right)
  ultimately show ?thesis
    by (simp add: sqrt_newton_def)
qed


section \<open>Accuracy of the result\<close>


section \<open>Comparisons and real values\<close>

lemma flt_valof:
  "flt (Fin s1 m1 e1) (Fin s2 m2 e2) \<longleftrightarrow> valof (Fin s1 m1 e1) < valof (Fin s2 m2 e2)"
proof -
  define E where "E = min e1 e2"
  have le: "E \<le> e1" "E \<le> e2"
    by (simp_all add: E_def)
  have p: "0 < (2::real) powi E"
    by simp
  have "aligned E s1 m1 e1 < aligned E s2 m2 e2
      \<longleftrightarrow> real_of_int (aligned E s1 m1 e1) * 2 powi E < real_of_int (aligned E s2 m2 e2) * 2 powi E"
    using p by simp
  then show ?thesis
    unfolding aligned_value [OF le(1)] aligned_value [OF le(2)]
    by (simp add: Let_def E_def)
qed

lemma feq_valof:
  "feq (Fin s1 m1 e1) (Fin s2 m2 e2) \<longleftrightarrow> valof (Fin s1 m1 e1) = valof (Fin s2 m2 e2)"
proof -
  define E where "E = min e1 e2"
  have le: "E \<le> e1" "E \<le> e2"
    by (simp_all add: E_def)
  have p: "(2::real) powi E \<noteq> 0"
    by simp
  have "aligned E s1 m1 e1 = aligned E s2 m2 e2
      \<longleftrightarrow> real_of_int (aligned E s1 m1 e1) * 2 powi E = real_of_int (aligned E s2 m2 e2) * 2 powi E"
    using p by simp
  then show ?thesis
    unfolding aligned_value [OF le(1)] aligned_value [OF le(2)]
    by (simp add: Let_def E_def)
qed

lemma fle_valof:
  "fle (Fin s1 m1 e1) (Fin s2 m2 e2) \<longleftrightarrow> valof (Fin s1 m1 e1) \<le> valof (Fin s2 m2 e2)"
  unfolding fle_def flt_valof feq_valof by auto

lemma valof_one: "valof one = 1"
  by (simp add: one_def)

lemma initial_guess_above_sqrt:
  assumes "positive a" and "is_finite a"
  shows "sqrt (valof a) \<le> valof (initial_guess a) \<and> 0 < sqrt (valof a)"
proof -
  obtain ma ea where a: "a = Fin False ma ea" and ma: "0 < ma"
    using positive_finite_cases [OF assms] by blast
  have pos: "0 < valof a"
    using ma by (simp add: a)
  have ge: "fge a one \<longleftrightarrow> 1 \<le> valof a"
    unfolding fge_def a one_def fle_valof by simp
  show ?thesis
  proof (cases "fge a one")
    case True
    then have "1 \<le> valof a"
      using ge by simp
    then have "sqrt (valof a) \<le> valof a"
      using sqrt_le_D real_le_lsqrt [of "valof a" "valof a"] pos
      by (simp add: power2_eq_square)
    with True pos show ?thesis
      by (simp add: initial_guess_def)
  next
    case False
    then have "valof a \<le> 1"
      using ge by simp
    then have "sqrt (valof a) \<le> 1"
      by simp
    with False pos show ?thesis
      by (simp add: initial_guess_def valof_one)
  qed
qed

section \<open>Rounding down to the nearest value\<close>

lemma round_half_even_below_half:
  assumes "0 < d" and "j * d \<le> n" and "2 * n < (2 * j + 1) * d"
  shows "round_half_even n d = j"
proof -
  have "n < d * Suc j"
    using assms(1,3) by (simp add: algebra_simps)
  moreover have "d * j \<le> n"
    using assms(2) by (simp add: mult.commute)
  ultimately have q: "n div d = j"
    by (intro div_nat_eqI)
  have "n mod d = n - j * d"
    using q by (metis minus_div_mult_eq_mod)
  then have "2 * (n mod d) < d"
    using assms(2,3) by (simp add: algebra_simps)
  then show ?thesis
    by (simp add: round_half_even_def Let_def q)
qed

lemma real_less_nat_iff: "real a < real b \<longleftrightarrow> a < b"
  by simp

lemma scale_round_below_half:
  assumes "0 < d" and "real j \<le> ratio n d k" and "ratio n d k < real j + 1 / 2"
  shows "scale_round n d k = j"
proof (cases "0 \<le> k")
  case True
  define N where "N = n * 2 ^ nat k"
  have r: "ratio n d k = real N / real d"
    unfolding N_def using True by (rule ratio_nonneg_exp)
  have lo: "j * d \<le> N"
    using assms(2) unfolding r real_le_div_iff [OF assms(1)] .
  have "real N / real d < (2 * real j + 1) / 2"
    using assms(3) unfolding r by (simp add: field_simps)
  then have "2 * real N < (2 * real j + 1) * real d"
    using assms(1) by (simp add: field_simps)
  then have "real (2 * N) < real ((2 * j + 1) * d)"
    by (simp add: algebra_simps)
  then have hi: "2 * N < (2 * j + 1) * d"
    unfolding real_less_nat_iff .
  show ?thesis
    using True round_half_even_below_half [OF assms(1) lo hi]
    by (simp add: scale_round_def N_def)
next
  case False
  then have k: "k < 0" by simp
  define D where "D = d * 2 ^ nat (- k)"
  have D: "0 < D"
    using assms(1) by (simp add: D_def)
  have r: "ratio n d k = real n / real D"
    unfolding D_def using k by (rule ratio_neg_exp)
  have lo: "j * D \<le> n"
    using assms(2) unfolding r real_le_div_iff [OF D] .
  have "real n / real D < (2 * real j + 1) / 2"
    using assms(3) unfolding r by (simp add: field_simps)
  then have "2 * real n < (2 * real j + 1) * real D"
    using D by (simp add: field_simps)
  then have "real (2 * n) < real ((2 * j + 1) * D)"
    by (simp add: algebra_simps)
  then have hi: "2 * n < (2 * j + 1) * D"
    unfolding real_less_nat_iff .
  show ?thesis
    using k round_half_even_below_half [OF D lo hi]
    by (simp add: scale_round_def D_def)
qed

lemma fround_nearest_below:
  assumes n: "0 < n" and d: "0 < d"
    and M: "is_binary64 (Fin t M e')"
    and lo: "real M * 2 powi e' \<le> ratio n d E"
    and hi: "ratio n d E < (real M + 1 / 2) * 2 powi e'"
  shows "fround s n d E = Fin s M e'"
proof -
  obtain e where e: "- 1074 \<le> e"
    and up: "ratio n d (E - e) < 2 ^ 53"
    and down: "- 1074 < e \<Longrightarrow> 2 ^ 52 \<le> ratio n d (E - e)"
    and fr: "fround s n d E =
          (if scale_round n d (E - e) = 2 ^ 53 then pack s (2 ^ 52) (e + 1)
           else pack s (scale_round n d (E - e)) e)"
    using fround_cases [OF n d] by blast
  have M53: "real M + 1 \<le> 2 ^ 53"
  proof -
    have "M + 1 \<le> 2 ^ 53"
      using M by (simp add: is_binary64_def)
    then have "real (M + 1) \<le> real ((2::nat) ^ 53)"
      using of_nat_le_iff by blast
    then show ?thesis
      by simp
  qed
  have v: "ratio n d E = ratio n d (E - e) * 2 powi e"
    by (rule ratio_unshift)
  have not_gt: "\<not> e' < e"
  proof
    assume "e' < e"
    then have lt: "e' + 1 \<le> e" and "- 1074 < e"
      using M by (simp_all add: is_binary64_def)
    then have y: "2 ^ 52 \<le> ratio n d (E - e)"
      using down by simp
    have "ratio n d E < 2 ^ 53 * 2 powi e'"
    proof -
      have "(real M + 1 / 2) * 2 powi e' \<le> 2 ^ 53 * 2 powi e'"
        using M53 by (intro mult_right_mono) simp_all
      with hi show ?thesis by (rule less_le_trans)
    qed
    also have "\<dots> = 2 ^ 52 * 2 powi (e' + 1)"
      by (simp add: power_int_add)
    also have "\<dots> \<le> 2 ^ 52 * 2 powi e"
      using lt by (intro mult_left_mono power_int_increasing) simp_all
    also have "\<dots> \<le> ratio n d (E - e) * 2 powi e"
      using y by simp
    finally show False
      unfolding v by simp
  qed
  have not_lt: "\<not> e < e'"
  proof
    assume "e < e'"
    then have lt: "e + 1 \<le> e'" and "- 1074 < e'"
      using e by simp_all
    then have "2 ^ 52 \<le> M"
      using M by (auto simp: is_binary64_def)
    then have "real ((2::nat) ^ 52) \<le> real M"
      using of_nat_le_iff by blast
    then have M52: "2 ^ 52 \<le> real M"
      by simp
    have "ratio n d (E - e) * 2 powi e < 2 ^ 53 * 2 powi e"
      using up by simp
    also have "\<dots> = 2 ^ 52 * 2 powi (e + 1)"
      by (simp add: power_int_add)
    also have "\<dots> \<le> 2 ^ 52 * 2 powi e'"
      using lt by (intro mult_left_mono power_int_increasing) simp_all
    also have "\<dots> \<le> real M * 2 powi e'"
      using M52 by simp
    finally show False
      using lo unfolding v by simp
  qed
  from not_gt not_lt have ee: "e = e'"
    by simp
  have p: "0 < (2::real) powi e'"
    by simp
  have "real M \<le> ratio n d (E - e')" and "ratio n d (E - e') < real M + 1 / 2"
    using lo hi p unfolding v ee by simp_all
  then have m: "scale_round n d (E - e') = M"
    by (rule scale_round_below_half [OF d])
  have "M \<noteq> 2 ^ 53" and "e' \<le> 971"
    using M by (simp_all add: is_binary64_def)
  then show ?thesis
    unfolding fr ee m by (simp add: pack_def)
qed


section \<open>A step from above the square root does not increase the estimate\<close>

lemma ratio_quotient:
  assumes "0 < m"
  shows "ratio ma m (ea - e) = (real ma * 2 powi ea) / (real m * 2 powi e)"
proof -
  have "(2::real) powi (ea - e) = 2 powi ea / 2 powi e"
    by (rule power_int_diff) simp
  then show ?thesis
    by (simp add: ratio_def)
qed

lemma fdiv_le_divisor:
  assumes ma: "0 < ma" and x: "is_binary64 (Fin False m e)" and m: "0 < m"
    and ge: "real ma * 2 powi ea \<le> (real m * 2 powi e) * (real m * 2 powi e)"
  shows "\<exists>mq eq. fdiv (Fin False ma ea) (Fin False m e) = Fin False mq eq
     \<and> real mq * 2 powi eq \<le> real m * 2 powi e"
proof -
  have vx: "0 < real m * 2 powi e"
    using m by simp
  have "(real ma * 2 powi ea) / (real m * 2 powi e) \<le> real m * 2 powi e"
    using ge vx by (simp add: pos_divide_le_eq)
  then have "ratio ma m (ea - e) \<le> real m * 2 powi e"
    unfolding ratio_quotient [OF m] .
  from fround_upper [OF ma m x this, of False] show ?thesis
    using m by simp
qed

lemma fdiv_le_two:
  assumes a: "is_binary64 (Fin False ma ea)" and ma: "0 < ma"
    and x: "is_binary64 (Fin False m e)" and e: "e = 971"
  shows "\<exists>mq eq. fdiv (Fin False ma ea) (Fin False m e) = Fin False mq eq
     \<and> real mq * 2 powi eq \<le> 2"
proof -
  have m52: "2 ^ 52 \<le> m"
    using x e by (auto simp: is_binary64_def)
  then have m: "0 < m"
    by (simp add: less_le_trans [of 0 "2 ^ 52"])
  have "real ((2::nat) ^ 52) \<le> real m"
    using m52 of_nat_le_iff by blast
  then have rm: "2 ^ 52 \<le> real m"
    by simp
  have "ma < 2 ^ 53"
    using a by (simp add: is_binary64_def)
  then have "real ma < real ((2::nat) ^ 53)"
    using of_nat_less_iff by blast
  then have rma: "real ma \<le> 2 ^ 53"
    by simp
  have ee: "ea \<le> e"
    using a e by (simp add: is_binary64_def)
  have vx: "0 < real m * 2 powi e"
    using m by simp
  have "real ma * 2 powi ea \<le> 2 ^ 53 * 2 powi ea"
    using rma by (intro mult_right_mono) simp_all
  also have "\<dots> \<le> 2 ^ 53 * 2 powi e"
    using ee by (intro mult_left_mono power_int_increasing) simp_all
  also have "\<dots> = 2 * (2 ^ 52 * 2 powi e)"
    by simp
  also have "\<dots> \<le> 2 * (real m * 2 powi e)"
    using rm by (intro mult_left_mono mult_right_mono) simp_all
  finally have "(real ma * 2 powi ea) / (real m * 2 powi e) \<le> 2"
    using vx by (simp add: pos_divide_le_eq)
  then have le: "ratio ma m (ea - e) \<le> real ((2::nat) ^ 52) * 2 powi (- 51)"
    unfolding ratio_quotient [OF m] by simp
  have two: "is_binary64 (Fin False (2 ^ 52) (- 51))"
    by (simp add: is_binary64_def)
  from fround_upper [OF ma m two le, of False] show ?thesis
    using m by simp
qed

lemma double_representable:
  assumes "is_binary64 (Fin False m e)" and "e < 971"
  shows "\<exists>Bm Be. is_binary64 (Fin False Bm Be)
     \<and> real Bm * 2 powi Be = 2 * (real m * 2 powi e)"
proof (cases "m < 2 ^ 52")
  case True
  with assms have "is_binary64 (Fin False (2 * m) e)"
    by (simp add: is_binary64_def)
  moreover have "real (2 * m) * 2 powi e = 2 * (real m * 2 powi e)"
    by simp
  ultimately show ?thesis
    by blast
next
  case False
  with assms have "is_binary64 (Fin False m (e + 1))"
    by (simp add: is_binary64_def)
  moreover have "real m * 2 powi (e + 1) = 2 * (real m * 2 powi e)"
    by (simp add: power_int_add)
  ultimately show ?thesis
    by blast
qed

lemma fadd_le_double:
  assumes x: "is_binary64 (Fin False m e)" and m: "0 < m" and e: "e < 971"
    and q: "real mq * 2 powi eq \<le> real m * 2 powi e"
  shows "\<exists>ms es. fadd (Fin False m e) (Fin False mq eq) = Fin False ms es
     \<and> real ms * 2 powi es \<le> 2 * (real m * 2 powi e)"
proof -
  obtain n E where npos: "0 < n"
    and fa: "fadd (Fin False m e) (Fin False mq eq) = fround False n 1 E"
    and r: "ratio n 1 E = real m * 2 powi e + real mq * 2 powi eq"
    using fadd_nonneg [of m mq e eq] m by blast
  obtain Bm Be where B: "is_binary64 (Fin False Bm Be)"
    and Bv: "real Bm * 2 powi Be = 2 * (real m * 2 powi e)"
    using double_representable [OF x e] by blast
  have "ratio n 1 E \<le> real Bm * 2 powi Be"
    unfolding r Bv using q by simp
  from fround_upper [OF npos _ B this, of False] show ?thesis
    unfolding fa Bv by simp
qed

lemma fadd_top:
  assumes x: "is_binary64 (Fin False m e)" and m: "0 < m" and e: "e = 971"
    and q: "real mq * 2 powi eq \<le> 2"
  shows "fadd (Fin False m e) (Fin False mq eq) = Fin False m e"
proof -
  obtain n E where npos: "0 < n"
    and fa: "fadd (Fin False m e) (Fin False mq eq) = fround False n 1 E"
    and r: "ratio n 1 E = real m * 2 powi e + real mq * 2 powi eq"
    using fadd_nonneg [of m mq e eq] m by blast
  have lo: "real m * 2 powi e \<le> ratio n 1 E"
    unfolding r by simp
  have "(2::real) powi 3 \<le> 2 powi e"
    using e by (intro power_int_increasing) simp_all
  then have "2 < 1 / 2 * (2::real) powi e"
    by simp
  with q have "real mq * 2 powi eq < 1 / 2 * 2 powi e"
    by simp
  then have hi: "ratio n 1 E < (real m + 1 / 2) * 2 powi e"
    unfolding r by (simp add: algebra_simps)
  show ?thesis
    unfolding fa using fround_nearest_below [OF npos _ x lo hi, of False] by simp
qed

lemma half_le:
  assumes x: "is_binary64 (Fin False m e)"
    and s: "real ms * 2 powi es \<le> 2 * (real m * 2 powi e)"
  shows "\<exists>m' e'. fmul half (Fin False ms es) = Fin False m' e'
     \<and> real m' * 2 powi e' \<le> real m * 2 powi e"
proof (cases "ms = 0")
  case True
  then show ?thesis
    by (simp add: half_def fround_def)
next
  case False
  define n where "n = 2 ^ 52 * ms"
  have fm: "fmul half (Fin False ms es) = fround False n 1 (- 53 + es)"
    by (simp add: half_def n_def)
  have npos: "0 < n"
    using False by (simp add: n_def)
  have "(2::real) powi (- 53 + es) = 2 powi (- 53) * 2 powi es"
    by (rule power_int_add) simp
  then have "ratio n 1 (- 53 + es) = (real ms * 2 powi es) / 2"
    by (simp add: ratio_def n_def)
  with s have "ratio n 1 (- 53 + es) \<le> real m * 2 powi e"
    by simp
  from fround_upper [OF npos _ x this, of False] show ?thesis
    unfolding fm by simp
qed

lemma heron_not_above:
  assumes a: "is_binary64 (Fin False ma ea)" and ma: "0 < ma"
    and x: "is_binary64 (Fin False m e)" and m: "0 < m"
    and ge: "real ma * 2 powi ea \<le> (real m * 2 powi e) * (real m * 2 powi e)"
  shows "\<exists>m' e'. heron (Fin False ma ea) (Fin False m e) = Fin False m' e'
     \<and> real m' * 2 powi e' \<le> real m * 2 powi e"
proof -
  have "\<exists>ms es. fadd (Fin False m e) (fdiv (Fin False ma ea) (Fin False m e)) = Fin False ms es
     \<and> real ms * 2 powi es \<le> 2 * (real m * 2 powi e)"
  proof (cases "e < 971")
    case True
    obtain mq eq where q: "fdiv (Fin False ma ea) (Fin False m e) = Fin False mq eq"
      and qv: "real mq * 2 powi eq \<le> real m * 2 powi e"
      using fdiv_le_divisor [OF ma x m ge] by blast
    show ?thesis
      unfolding q by (rule fadd_le_double [OF x m True qv])
  next
    case False
    with x have e: "e = 971"
      by (simp add: is_binary64_def)
    obtain mq eq where q: "fdiv (Fin False ma ea) (Fin False m e) = Fin False mq eq"
      and qv: "real mq * 2 powi eq \<le> 2"
      using fdiv_le_two [OF a ma x e] by blast
    have "0 \<le> real m * 2 powi e"
      by simp
    then show ?thesis
      unfolding q fadd_top [OF x m e qv] by auto
  qed
  then obtain ms es
    where s: "fadd (Fin False m e) (fdiv (Fin False ma ea) (Fin False m e)) = Fin False ms es"
    and sv: "real ms * 2 powi es \<le> 2 * (real m * 2 powi e)"
    by blast
  show ?thesis
    unfolding heron_def s by (rule half_le [OF x sv])
qed




section \<open>The number of iterations\<close>

lemma newton_divisors_length_le:
  "length (newton_divisors a eps max_iters i x) \<le> nat (max_iters - i)"
proof (induction "nat (max_iters - i)" arbitrary: i x)
  case 0
  then have "\<not> i < max_iters" by simp
  then show ?case
    by (subst newton_divisors_step) simp
next
  case (Suc n)
  then have lt: "i < max_iters" and n: "n = nat (max_iters - (i + 1))"
    by simp_all
  have "length (newton_divisors a eps max_iters (i + 1) (heron a x)) \<le> n"
    using Suc.hyps(1) [OF n, of "heron a x"] n by simp
  with lt Suc.hyps(2) show ?case
    by (subst newton_divisors_step) simp
qed

section \<open>The rounding error of one operation\<close>

lemma round_half_even_near:
  assumes "0 < d"
  shows "\<bar>real (round_half_even n d) - real n / real d\<bar> \<le> 1 / 2"
proof -
  define q where "q = n div d"
  define r where "r = n mod d"
  have dpos: "0 < real d"
    using assms by simp
  have "real n = real q * real d + real r"
    unfolding q_def r_def by (metis div_mult_mod_eq of_nat_add of_nat_mult)
  then have quot: "real n / real d = real q + real r / real d"
    using dpos by (simp add: field_simps)
  have rlt: "real r < real d"
    using assms by (simp add: r_def)
  consider "2 * r < d" | "d < 2 * r" | "2 * r = d"
    by linarith
  then show ?thesis
  proof cases
    case 1
    then have "real (2 * r) < real d"
      using of_nat_less_iff by blast
    then have "real r / real d < 1 / 2"
      using dpos by (simp add: field_simps)
    moreover have "0 \<le> real r / real d"
      by simp
    moreover have "round_half_even n d = q"
      using 1 by (simp add: round_half_even_def Let_def q_def r_def)
    ultimately show ?thesis
      unfolding quot by simp
  next
    case 2
    then have "real d < real (2 * r)"
      using of_nat_less_iff by blast
    then have "1 / 2 < real r / real d"
      using dpos by (simp add: field_simps)
    moreover have "real r / real d < 1"
      using rlt dpos by simp
    moreover have "round_half_even n d = q + 1"
      using 2 by (simp add: round_half_even_def Let_def q_def r_def)
    ultimately show ?thesis
      unfolding quot by simp
  next
    case 3
    then have "real (2 * r) = real d"
      by simp
    then have "real r / real d = 1 / 2"
      using dpos by (simp add: field_simps)
    moreover have "round_half_even n d = q \<or> round_half_even n d = q + 1"
      using 3 by (simp add: round_half_even_def Let_def q_def r_def)
    ultimately show ?thesis
      unfolding quot by auto
  qed
qed

lemma scale_round_near:
  assumes "0 < d"
  shows "\<bar>real (scale_round n d k) - ratio n d k\<bar> \<le> 1 / 2"
proof (cases "0 \<le> k")
  case True
  then show ?thesis
    using round_half_even_near [OF assms, of "n * 2 ^ nat k"]
    by (simp add: scale_round_def ratio_nonneg_exp del: of_nat_mult of_nat_power)
next
  case False
  then have k: "k < 0" by simp
  have "0 < d * 2 ^ nat (- k)"
    using assms by simp
  from round_half_even_near [OF this, of n] show ?thesis
    using k by (simp add: scale_round_def ratio_neg_exp del: of_nat_mult of_nat_power)
qed

lemma fround_error:
  assumes n: "0 < n" and d: "0 < d"
  shows "fround s n d E = Inf s
     \<or> (\<exists>m e. fround s n d E = Fin s m e
           \<and> \<bar>real m * 2 powi e - ratio n d E\<bar>
               \<le> unit_roundoff * ratio n d E + half_min_subnormal)"
proof -
  obtain e where e: "- 1074 \<le> e"
    and up: "ratio n d (E - e) < 2 ^ 53"
    and down: "- 1074 < e \<Longrightarrow> 2 ^ 52 \<le> ratio n d (E - e)"
    and fr: "fround s n d E =
          (if scale_round n d (E - e) = 2 ^ 53 then pack s (2 ^ 52) (e + 1)
           else pack s (scale_round n d (E - e)) e)"
    using fround_cases [OF n d] by blast
  define m where "m = scale_round n d (E - e)"
  define y where "y = ratio n d (E - e)"
  have v: "ratio n d E = y * 2 powi e"
    unfolding y_def by (rule ratio_unshift)
  have near: "\<bar>real m - y\<bar> \<le> 1 / 2"
    unfolding m_def y_def by (rule scale_round_near [OF d])
  have p: "0 < (2::real) powi e"
    by simp
  have "\<bar>real m * 2 powi e - y * 2 powi e\<bar> = \<bar>real m - y\<bar> * 2 powi e"
    by (simp add: abs_mult left_diff_distrib [symmetric])
  also have "\<dots> \<le> 1 / 2 * 2 powi e"
    using near p by (intro mult_right_mono) simp_all
  finally have err: "\<bar>real m * 2 powi e - ratio n d E\<bar> \<le> 1 / 2 * 2 powi e"
    unfolding v .
  have "1 / 2 * 2 powi e \<le> unit_roundoff * ratio n d E + half_min_subnormal"
  proof (cases "- 1074 < e")
    case True
    then have "2 ^ 52 \<le> y"
      unfolding y_def by (rule down)
    then have "1 / 2 \<le> 2 powi (- 53) * y"
      by simp
    then have "1 / 2 * 2 powi e \<le> (2 powi (- 53) * y) * 2 powi e"
      using p by (intro mult_right_mono) simp_all
    also have "\<dots> = unit_roundoff * ratio n d E"
      unfolding v unit_roundoff_def by simp
    finally show ?thesis
      by (simp add: half_min_subnormal_def)
  next
    case False
    with e have "e = - 1074" by simp
    moreover have "(2::real) powi (- 1 + - 1074) = 2 powi (- 1) * 2 powi (- 1074)"
      by (rule power_int_add) simp
    ultimately have "1 / 2 * 2 powi e = half_min_subnormal"
      by (simp add: half_min_subnormal_def)
    moreover have "0 \<le> unit_roundoff * ratio n d E"
      by (simp add: unit_roundoff_def ratio_nonneg)
    ultimately show ?thesis
      by simp
  qed
  with err have "\<bar>real m * 2 powi e - ratio n d E\<bar>
      \<le> unit_roundoff * ratio n d E + half_min_subnormal"
    by simp
  then show ?thesis
    unfolding fr m_def [symmetric] using pack_value [of m s e] by auto
qed

section \<open>One Heron step in real arithmetic with rounding errors\<close>

lemma step_sum_lower:
  fixes A X Q S :: real
  assumes A: "1 / 2 ^ 20 \<le> A" and X: "0 < X"
    and q: "\<bar>Q - A / X\<bar> \<le> (A / X) / 2 ^ 53 + 1 / 2 ^ 100"
    and s: "\<bar>S - (X + Q)\<bar> \<le> (X + Q) / 2 ^ 53 + 1 / 2 ^ 100"
  shows "1 / 2 ^ 12 \<le> S"
proof -
  define W where "W = A / X"
  have W0: "0 \<le> W"
    using A X by (simp add: W_def)
  have big: "1 / 2 ^ 10 \<le> X \<or> 1 / 2 ^ 10 \<le> W"
  proof (cases "1 / 2 ^ 10 \<le> X")
    case True
    then show ?thesis ..
  next
    case False
    then have "X * (1 / 2 ^ 10) \<le> (1 / 2 ^ 10) * (1 / 2 ^ 10)"
      using X by (intro mult_right_mono) simp_all
    also have "\<dots> \<le> A"
      using A by simp
    finally have "1 / 2 ^ 10 \<le> A / X"
      using X by (simp add: pos_le_divide_eq mult.commute)
    then show ?thesis
      by (simp add: W_def)
  qed
  have q': "\<bar>Q - W\<bar> \<le> W / 2 ^ 53 + 1 / 2 ^ 100"
    using q by (simp add: W_def)
  from big show ?thesis
  proof
    assume "1 / 2 ^ 10 \<le> X"
    with q' s W0 show ?thesis
      by (simp add: abs_le_iff) argo
  next
    assume "1 / 2 ^ 10 \<le> W"
    with q' s X show ?thesis
      by (simp add: abs_le_iff) argo
  qed
qed





section \<open>The rounding errors of the operations of one step\<close>

lemma unit_roundoff_eq: "unit_roundoff = 1 / 2 ^ 53"
  by (simp add: unit_roundoff_def power_int_minus_divide)

lemma half_min_subnormal_le: "half_min_subnormal \<le> 1 / 2 ^ 100"
proof -
  have "(2::real) powi (- 1075) \<le> 2 powi (- 100)"
    by (intro power_int_increasing) simp_all
  then show ?thesis
    by (simp add: half_min_subnormal_def power_int_minus_divide)
qed

lemma fround_rel_error:
  assumes n: "0 < n" and d: "0 < d"
  shows "fround s n d E = Inf s
     \<or> (\<exists>m e. fround s n d E = Fin s m e \<and> is_binary64 (Fin s m e)
           \<and> \<bar>real m * 2 powi e - ratio n d E\<bar> \<le> ratio n d E / 2 ^ 53 + 1 / 2 ^ 100)"
proof -
  from fround_error [OF n d, of s E] show ?thesis
  proof
    assume "fround s n d E = Inf s"
    then show ?thesis ..
  next
    assume "\<exists>m e. fround s n d E = Fin s m e
           \<and> \<bar>real m * 2 powi e - ratio n d E\<bar>
               \<le> unit_roundoff * ratio n d E + half_min_subnormal"
    then obtain m e where fr: "fround s n d E = Fin s m e"
      and err: "\<bar>real m * 2 powi e - ratio n d E\<bar>
               \<le> unit_roundoff * ratio n d E + half_min_subnormal"
      by blast
    have "is_binary64 (Fin s m e)"
      using fround_binary64 [OF d, of s n E] fr by simp
    moreover have "\<bar>real m * 2 powi e - ratio n d E\<bar> \<le> ratio n d E / 2 ^ 53 + 1 / 2 ^ 100"
      using err half_min_subnormal_le unfolding unit_roundoff_eq by simp
    ultimately show ?thesis
      using fr by blast
  qed
qed

lemma fdiv_error:
  assumes "0 < ma" and m: "0 < m"
  shows "fdiv (Fin False ma ea) (Fin False m e) = Inf False
     \<or> (\<exists>mq eq. fdiv (Fin False ma ea) (Fin False m e) = Fin False mq eq
           \<and> is_binary64 (Fin False mq eq)
           \<and> \<bar>real mq * 2 powi eq - (real ma * 2 powi ea) / (real m * 2 powi e)\<bar>
               \<le> ((real ma * 2 powi ea) / (real m * 2 powi e)) / 2 ^ 53 + 1 / 2 ^ 100)"
  using fround_rel_error [OF assms, of False "ea - e"] m
  unfolding ratio_quotient [OF m] by simp

lemma fadd_error:
  assumes "0 < m1 \<or> 0 < m2"
  shows "fadd (Fin False m1 e1) (Fin False m2 e2) = Inf False
     \<or> (\<exists>ms es. fadd (Fin False m1 e1) (Fin False m2 e2) = Fin False ms es
           \<and> is_binary64 (Fin False ms es)
           \<and> \<bar>real ms * 2 powi es - (real m1 * 2 powi e1 + real m2 * 2 powi e2)\<bar>
               \<le> (real m1 * 2 powi e1 + real m2 * 2 powi e2) / 2 ^ 53 + 1 / 2 ^ 100)"
proof -
  obtain n E where npos: "0 < n"
    and fa: "fadd (Fin False m1 e1) (Fin False m2 e2) = fround False n 1 E"
    and r: "ratio n 1 E = real m1 * 2 powi e1 + real m2 * 2 powi e2"
    using fadd_nonneg [OF assms] by blast
  show ?thesis
    unfolding fa using fround_rel_error [OF npos, of 1 False E] unfolding r by simp
qed

lemma fmul_error:
  assumes "0 < m1" and "0 < m2"
  shows "fmul (Fin False m1 e1) (Fin False m2 e2) = Inf False
     \<or> (\<exists>mp ep. fmul (Fin False m1 e1) (Fin False m2 e2) = Fin False mp ep
           \<and> is_binary64 (Fin False mp ep)
           \<and> \<bar>real mp * 2 powi ep - (real m1 * 2 powi e1) * (real m2 * 2 powi e2)\<bar>
               \<le> ((real m1 * 2 powi e1) * (real m2 * 2 powi e2)) / 2 ^ 53 + 1 / 2 ^ 100)"
proof -
  have npos: "0 < m1 * m2"
    using assms by simp
  have "(2::real) powi (e1 + e2) = 2 powi e1 * 2 powi e2"
    by (rule power_int_add) simp
  then have r: "ratio (m1 * m2) 1 (e1 + e2) = (real m1 * 2 powi e1) * (real m2 * 2 powi e2)"
    by (simp add: ratio_def)
  show ?thesis
    using fround_rel_error [OF npos, of 1 False "e1 + e2"] unfolding r by simp
qed

lemma fadd_commute_fin:
  "fadd (Fin s1 m1 e1) (Fin s2 m2 e2) = fadd (Fin s2 m2 e2) (Fin s1 m1 e1)"
  by (simp add: Let_def min.commute add.commute conj_commute)


lemma tiny_exponent_small:
  assumes "m < 2 ^ 53"
  shows "real m * 2 powi (- 1074) < 1 / 2 ^ 12"
proof -
  have "real m < real ((2::nat) ^ 53)"
    using assms of_nat_less_iff by blast
  then have "real m * 2 powi (- 1074) < 2 ^ 53 * 2 powi (- 1074)"
    by (intro mult_strict_right_mono) simp_all
  also have "\<dots> = 2 powi 53 * 2 powi (- 1074)"
    by simp
  also have "\<dots> = 2 powi (53 + - 1074)"
    by (rule power_int_add [symmetric]) simp
  also have "\<dots> \<le> 2 powi (- 12)"
    by (intro power_int_increasing) simp_all
  also have "\<dots> = 1 / 2 ^ 12"
    by (simp add: power_int_minus_divide)
  finally show ?thesis .
qed

lemma fmul_half_exact:
  assumes s: "is_binary64 (Fin False ms es)" and big: "1 / 2 ^ 12 \<le> real ms * 2 powi es"
  shows "fmul half (Fin False ms es) = Fin False ms (es - 1)"
proof -
  have ms53: "ms < 2 ^ 53"
    using s by (simp add: is_binary64_def)
  have es: "- 1074 < es"
  proof (rule ccontr)
    assume "\<not> - 1074 < es"
    with s have "es = - 1074"
      by (simp add: is_binary64_def)
    with tiny_exponent_small [OF ms53] big show False
      by simp
  qed
  with s have ms52: "2 ^ 52 \<le> ms"
    by (auto simp: is_binary64_def)
  then have ms: "0 < ms"
    by (simp add: less_le_trans [of 0 "2 ^ 52"])
  have half: "is_binary64 (Fin False ms (es - 1))"
    using s es ms52 by (simp add: is_binary64_def)
  have "(2::real) powi (- 53 + es) = 2 powi (- 52 + (es - 1))"
    by (rule arg_cong [where f = "power_int 2"]) simp
  also have "\<dots> = 2 powi (- 52) * 2 powi (es - 1)"
    by (rule power_int_add) simp
  finally have r: "ratio (2 ^ 52 * ms) 1 (- 53 + es) = real ms * 2 powi (es - 1)"
    by (simp add: ratio_def)
  have npos: "0 < 2 ^ 52 * ms"
    using ms by simp
  have "fmul half (Fin False ms es) = fround False (2 ^ 52 * ms) 1 (- 53 + es)"
    by (simp add: half_def)
  also have "\<dots> = Fin False ms (es - 1)"
    using fround_exact [OF npos _ half r] by simp
  finally show ?thesis .
qed

lemma heron_relations:
  assumes ma: "0 < ma" and m: "0 < m"
    and A: "1 / 2 ^ 20 \<le> real ma * 2 powi ea"
    and r: "heron (Fin False ma ea) (Fin False m e) = Fin False mr er"
  shows "\<exists>Q. \<bar>Q - (real ma * 2 powi ea) / (real m * 2 powi e)\<bar>
            \<le> ((real ma * 2 powi ea) / (real m * 2 powi e)) / 2 ^ 53 + 1 / 2 ^ 100
      \<and> \<bar>2 * (real mr * 2 powi er) - (real m * 2 powi e + Q)\<bar>
            \<le> (real m * 2 powi e + Q) / 2 ^ 53 + 1 / 2 ^ 100"
proof -
  have X: "0 < real m * 2 powi e"
    using m by simp
  from fdiv_error [OF ma m, of ea e]
  obtain mq eq where q: "fdiv (Fin False ma ea) (Fin False m e) = Fin False mq eq"
    and qe: "\<bar>real mq * 2 powi eq - (real ma * 2 powi ea) / (real m * 2 powi e)\<bar>
               \<le> ((real ma * 2 powi ea) / (real m * 2 powi e)) / 2 ^ 53 + 1 / 2 ^ 100"
    using r by (auto simp: heron_def half_def)
  from fadd_error [of m mq e eq] m
  obtain ms es where s: "fadd (Fin False m e) (Fin False mq eq) = Fin False ms es"
    and sb: "is_binary64 (Fin False ms es)"
    and se: "\<bar>real ms * 2 powi es - (real m * 2 powi e + real mq * 2 powi eq)\<bar>
               \<le> (real m * 2 powi e + real mq * 2 powi eq) / 2 ^ 53 + 1 / 2 ^ 100"
    using r unfolding heron_def q by (auto simp: half_def)
  have big: "1 / 2 ^ 12 \<le> real ms * 2 powi es"
    using A X qe se by (rule step_sum_lower)
  have "Fin False mr er = Fin False ms (es - 1)"
    using r unfolding heron_def q s fmul_half_exact [OF sb big] by simp
  then have mr: "mr = ms" and er: "er = es - 1"
    by simp_all
  have "(2::real) powi es = 2 powi (1 + (es - 1))"
    by simp
  also have "\<dots> = 2 powi 1 * 2 powi (es - 1)"
    by (rule power_int_add) simp
  finally have "2 * (real mr * 2 powi er) = real ms * 2 powi es"
    unfolding mr er by simp
  with qe se show ?thesis
    by auto
qed

section \<open>What the stop test says about the two estimates\<close>

lemma valof_one_mantissa: "real ((2::nat) ^ 52) * 2 powi (- 52) = 1"
  by (simp add: power_int_minus_divide)

lemma fadd_one_finite:
  assumes r: "is_binary64 (Fin False mr er)" and mr: "0 < mr"
  shows "\<exists>mt et. fadd one (Fin False mr er) = Fin False mt et"
proof -
  have one: "is_binary64 (Fin False (2 ^ 52) (- 52))"
    by (simp add: is_binary64_def)
  have c: "fadd one (Fin False mr er) = fadd (Fin False mr er) (Fin False (2 ^ 52) (- 52))"
    unfolding one_def by (rule fadd_commute_fin)
  show ?thesis
  proof (cases "er < 971")
    case False
    with r have e: "er = 971"
      by (simp add: is_binary64_def)
    have "real ((2::nat) ^ 52) * 2 powi (- 52) \<le> 2"
      unfolding valof_one_mantissa by simp
    from fadd_top [OF r mr e this] show ?thesis
      unfolding c by simp
  next
    case True
    show ?thesis
    proof (cases "real mr * 2 powi er \<le> 1")
      case True
      then have "real mr * 2 powi er \<le> real ((2::nat) ^ 52) * 2 powi (- 52)"
        unfolding valof_one_mantissa .
      from fadd_le_double [OF one _ _ this] show ?thesis
        unfolding one_def by auto
    next
      case False
      then have "real ((2::nat) ^ 52) * 2 powi (- 52) \<le> real mr * 2 powi er"
        unfolding valof_one_mantissa by simp
      from fadd_le_double [OF r mr True this] show ?thesis
        unfolding c by auto
    qed
  qed
qed

lemma fmul_eps_finite:
  assumes t: "is_binary64 (Fin False mt et)" and mt: "0 < mt"
  shows "\<exists>mp ep. fmul eps12 (Fin False mt et) = Fin False mp ep"
proof -
  have npos: "0 < 4951760157141521 * mt"
    using mt by simp
  have "(2::real) powi (- 92 + et) = 2 powi (- 92) * 2 powi et"
    by (rule power_int_add) simp
  then have "ratio (4951760157141521 * mt) 1 (- 92 + et)
      = (4951760157141521 / 2 ^ 92) * (real mt * 2 powi et)"
    by (simp add: ratio_def power_int_minus_divide)
  also have "\<dots> \<le> 1 * (real mt * 2 powi et)"
    by (intro mult_right_mono) simp_all
  finally have "ratio (4951760157141521 * mt) 1 (- 92 + et) \<le> real mt * 2 powi et"
    by simp
  from fround_upper [OF npos _ t this, of False] show ?thesis
    by (auto simp: eps12_def)
qed

lemma fsub_error:
  assumes r: "is_binary64 (Fin False mr er)" and x: "is_binary64 (Fin False m e)"
  shows "\<exists>s md ed. fsub (Fin False mr er) (Fin False m e) = Fin s md ed
     \<and> is_binary64 (Fin s md ed)
     \<and> \<bar>real md * 2 powi ed - \<bar>real mr * 2 powi er - real m * 2 powi e\<bar>\<bar>
         \<le> \<bar>real mr * 2 powi er - real m * 2 powi e\<bar> / 2 ^ 53 + 1 / 2 ^ 100"
proof -
  define E where "E = min er e"
  define k where "k = aligned E False mr er + aligned E True m e"
  have le: "E \<le> er" "E \<le> e"
    by (simp_all add: E_def)
  have "real_of_int k * 2 powi E
      = real_of_int (aligned E False mr er) * 2 powi E
        + real_of_int (aligned E True m e) * 2 powi E"
    by (simp add: k_def algebra_simps)
  also have "\<dots> = valof (Fin False mr er) + valof (Fin True m e)"
    by (simp only: aligned_value [OF le(1)] aligned_value [OF le(2)])
  finally have kv: "real_of_int k * 2 powi E = real mr * 2 powi er - real m * 2 powi e"
    by simp
  have fs: "fsub (Fin False mr er) (Fin False m e) =
      (if k = 0 then Fin False 0 (- 1074) else fround (k < 0) (nat \<bar>k\<bar>) 1 E)"
    by (simp add: fsub_def Let_def E_def k_def)
  show ?thesis
  proof (cases "k = 0")
    case True
    with kv have "real mr * 2 powi er - real m * 2 powi e = 0"
      by simp
    moreover have "is_binary64 (Fin False 0 (- 1074))"
      by (simp add: is_binary64_def)
    ultimately show ?thesis
      unfolding fs using True by auto
  next
    case False
    then have npos: "0 < nat \<bar>k\<bar>"
      by simp
    have "real (nat \<bar>k\<bar>) = \<bar>real_of_int k\<bar>"
      by simp
    then have "ratio (nat \<bar>k\<bar>) 1 E = \<bar>real_of_int k\<bar> * 2 powi E"
      by (simp add: ratio_def)
    also have "\<dots> = \<bar>real_of_int k * 2 powi E\<bar>"
      by (simp add: abs_mult)
    finally have rv: "ratio (nat \<bar>k\<bar>) 1 E = \<bar>real mr * 2 powi er - real m * 2 powi e\<bar>"
      unfolding kv .
    have fin: "\<exists>md ed. fround (k < 0) (nat \<bar>k\<bar>) 1 E = Fin (k < 0) md ed"
    proof (cases "real m * 2 powi e \<le> real mr * 2 powi er")
      case True
      have "0 \<le> real m * 2 powi e"
        by simp
      with True have "ratio (nat \<bar>k\<bar>) 1 E \<le> real mr * 2 powi er"
        unfolding rv by simp
      from fround_upper [OF npos _ r this, of "k < 0"] show ?thesis
        by auto
    next
      case False
      have "0 \<le> real mr * 2 powi er"
        by simp
      with False have "ratio (nat \<bar>k\<bar>) 1 E \<le> real m * 2 powi e"
        unfolding rv by simp
      from fround_upper [OF npos _ x this, of "k < 0"] show ?thesis
        by auto
    qed
    from fround_rel_error [OF npos, of 1 "k < 0" E] fin show ?thesis
      unfolding fs rv using False by auto
  qed
qed


section \<open>The accuracy of a result returned through the stop test\<close>




section \<open>A lower bound for one Heron step in real arithmetic\<close>

lemma step_lower_real:
  fixes A X Q S R t h :: real
  assumes A: "0 < A" and X: "0 < X" and t: "0 < t" and tt: "t * t \<le> 4 * A"
    and h: "0 \<le> h" "4 * h \<le> t / 2 ^ 55"
    and q: "\<bar>Q - A / X\<bar> \<le> (A / X) / 2 ^ 53 + h"
    and s: "\<bar>S - (X + Q)\<bar> \<le> (X + Q) / 2 ^ 53 + h"
    and r: "\<bar>R - S / 2\<bar> \<le> (S / 2) / 2 ^ 53 + h"
  shows "A * (1 - 1 / 2 ^ 50) \<le> R * R"
proof -
  define W where "W = A / X"
  define Y where "Y = X + W"
  have W: "0 < W"
    using A X by (simp add: W_def)
  have xw: "X * W = A"
    using X by (simp add: W_def)
  have Y0: "0 < Y"
    using X W by (simp add: Y_def)
  have "(X - W) * (X - W) \<ge> 0"
    by simp
  moreover have "Y * Y = (X - W) * (X - W) + 4 * (X * W)"
    by (simp add: Y_def algebra_simps)
  ultimately have yy: "4 * A \<le> Y * Y"
    unfolding xw by simp
  have ty: "t \<le> Y"
  proof (rule ccontr)
    assume "\<not> t \<le> Y"
    then have "Y < t" by simp
    with Y0 have "Y * Y < t * t"
      by (intro mult_strict_mono) simp_all
    with tt yy show False by simp
  qed
  have q': "\<bar>Q - W\<bar> \<le> W / 2 ^ 53 + h"
    using q by (simp add: W_def)
  have low: "Y * (1 - 1 / 2 ^ 51) \<le> 2 * R"
    using q' s r h ty X W unfolding Y_def
    by (simp add: abs_le_iff) argo
  define c :: real where "c = 1 - 1 / 2 ^ 51"
  define Z where "Z = Y * c"
  define R2 where "R2 = 2 * R"
  have cpos: "0 \<le> c"
    by (simp add: c_def)
  have Z0: "0 \<le> Z"
    using Y0 cpos by (simp add: Z_def)
  have ZR: "Z \<le> R2"
    using low by (simp add: Z_def R2_def c_def)
  have "Z * Z \<le> R2 * R2"
    by (rule mult_mono) (use ZR Z0 in simp_all)
  then have zz: "(Y * Y) * (c * c) \<le> 4 * (R * R)"
    by (simp add: Z_def R2_def algebra_simps)
  have "(4 * A) * (c * c) \<le> (Y * Y) * (c * c)"
    using yy cpos by (intro mult_right_mono) simp_all
  with zz have "(4 * A) * (c * c) \<le> 4 * (R * R)"
    by simp
  then have "(4 * A) * ((1 - 1 / 2 ^ 51) * (1 - 1 / 2 ^ 51)) \<le> 4 * (R * R)"
    by (simp only: c_def)
  moreover have "(4 * A) * ((1 - 1 / 2 ^ 51) * (1 - 1 / 2 ^ 51))
      \<le> (Y * Y) * ((1 - 1 / 2 ^ 51) * (1 - 1 / 2 ^ 51))"
    using yy by (intro mult_right_mono) simp_all
  ultimately have "(4 * A) * ((1 - 1 / 2 ^ 51) * (1 - 1 / 2 ^ 51)) \<le> 4 * (R * R)"
    by (simp add: algebra_simps)
  moreover have "(1::real) - 1 / 2 ^ 50 \<le> (1 - 1 / 2 ^ 51) * (1 - 1 / 2 ^ 51)"
    by simp
  then have "A * (1 - 1 / 2 ^ 50) \<le> A * ((1 - 1 / 2 ^ 51) * (1 - 1 / 2 ^ 51))"
    using A by (intro mult_left_mono) simp_all
  ultimately show ?thesis
    by (simp add: algebra_simps)
qed

section \<open>Every estimate is close to or above the square root\<close>

lemma half_min_subnormal_nonneg: "0 \<le> half_min_subnormal"
  unfolding half_min_subnormal_def by (rule zero_le_power_int) simp

lemma fround_tight_error:
  assumes n: "0 < n" and d: "0 < d"
  shows "fround s n d E = Inf s
     \<or> (\<exists>m e. fround s n d E = Fin s m e
           \<and> \<bar>real m * 2 powi e - ratio n d E\<bar>
               \<le> ratio n d E / 2 ^ 53 + half_min_subnormal)"
  using fround_error [OF n d, of s E] unfolding unit_roundoff_eq by simp

lemma fdiv_tight_error:
  assumes "0 < ma" and m: "0 < m"
  shows "fdiv (Fin False ma ea) (Fin False m e) = Inf False
     \<or> (\<exists>mq eq. fdiv (Fin False ma ea) (Fin False m e) = Fin False mq eq
           \<and> \<bar>real mq * 2 powi eq - (real ma * 2 powi ea) / (real m * 2 powi e)\<bar>
               \<le> ((real ma * 2 powi ea) / (real m * 2 powi e)) / 2 ^ 53
                  + half_min_subnormal)"
  using fround_tight_error [OF assms, of False "ea - e"] m
  unfolding ratio_quotient [OF m] by simp

lemma fadd_tight_error:
  assumes "0 < m1 \<or> 0 < m2"
  shows "fadd (Fin False m1 e1) (Fin False m2 e2) = Inf False
     \<or> (\<exists>ms es. fadd (Fin False m1 e1) (Fin False m2 e2) = Fin False ms es
           \<and> \<bar>real ms * 2 powi es - (real m1 * 2 powi e1 + real m2 * 2 powi e2)\<bar>
               \<le> (real m1 * 2 powi e1 + real m2 * 2 powi e2) / 2 ^ 53
                  + half_min_subnormal)"
proof -
  obtain n E where npos: "0 < n"
    and fa: "fadd (Fin False m1 e1) (Fin False m2 e2) = fround False n 1 E"
    and r: "ratio n 1 E = real m1 * 2 powi e1 + real m2 * 2 powi e2"
    using fadd_nonneg [OF assms] by blast
  show ?thesis
    unfolding fa using fround_tight_error [OF npos, of 1 False E] unfolding r by simp
qed

lemma fmul_half_tight_error:
  "fmul half (Fin False ms es) = Inf False
     \<or> (\<exists>mr er. fmul half (Fin False ms es) = Fin False mr er
           \<and> \<bar>real mr * 2 powi er - (real ms * 2 powi es) / 2\<bar>
               \<le> ((real ms * 2 powi es) / 2) / 2 ^ 53 + half_min_subnormal)"
proof (cases "ms = 0")
  case True
  then show ?thesis
    using half_min_subnormal_nonneg by (simp add: half_def fround_def)
next
  case False
  define n where "n = 2 ^ 52 * ms"
  have fm: "fmul half (Fin False ms es) = fround False n 1 (- 53 + es)"
    by (simp add: half_def n_def)
  have npos: "0 < n"
    using False by (simp add: n_def)
  have "(2::real) powi (- 53 + es) = 2 powi (- 53) * 2 powi es"
    by (rule power_int_add) simp
  then have r: "ratio n 1 (- 53 + es) = (real ms * 2 powi es) / 2"
    by (simp add: ratio_def n_def)
  show ?thesis
    unfolding fm using fround_tight_error [OF npos, of 1 False "- 53 + es"] unfolding r
    by simp
qed

lemma positive_above_min:
  assumes a: "is_binary64 (Fin False ma ea)" and ma: "0 < ma"
  shows "min_subnormal \<le> real ma * 2 powi ea"
proof -
  have "- 1074 \<le> ea"
    using a by (simp add: is_binary64_def)
  then have "(2::real) powi (- 1074) \<le> 2 powi ea"
    by (intro power_int_increasing) simp_all
  moreover have "1 \<le> real ma"
    using ma by simp
  ultimately have "1 * (2::real) powi (- 1074) \<le> real ma * 2 powi ea"
    by (intro mult_mono) simp_all
  then show ?thesis
    by (simp add: min_subnormal_def)
qed

lemma heron_lower:
  assumes a: "is_binary64 (Fin False ma ea)" and ma: "0 < ma" and m: "0 < m"
    and r: "heron (Fin False ma ea) (Fin False m e) = Fin False mr er"
  shows "(real ma * 2 powi ea) * (1 - 1 / 2 ^ 50)
     \<le> (real mr * 2 powi er) * (real mr * 2 powi er)"
proof -
  define t :: real where "t = 2 powi (- 536)"
  have A: "0 < real ma * 2 powi ea"
    using ma by simp
  have X: "0 < real m * 2 powi e"
    using m by simp
  have tpos: "0 < t"
    unfolding t_def by (rule zero_less_power_int) simp
  have "(2::real) powi (- 536 + - 536) = 2 powi (- 536) * 2 powi (- 536)"
    by (rule power_int_add) simp
  moreover have "(2::real) powi (2 + - 1074) = 2 powi 2 * 2 powi (- 1074)"
    by (rule power_int_add) simp
  moreover have "(2::real) powi (- 536 + - 536) = 2 powi (2 + - 1074)"
    by (rule arg_cong [where f = "power_int 2"]) simp
  ultimately have "t * t = 2 powi 2 * min_subnormal"
    by (simp only: t_def min_subnormal_def)
  also have "\<dots> = 4 * min_subnormal"
    by simp
  also have "\<dots> \<le> 4 * (real ma * 2 powi ea)"
    using positive_above_min [OF a ma] by simp
  finally have tt: "t * t \<le> 4 * (real ma * 2 powi ea)" .
  have "(2::real) powi (2 + - 1075) = 2 powi 2 * 2 powi (- 1075)"
    by (rule power_int_add) simp
  moreover have "(2::real) powi (- 536 + - 55) = 2 powi (- 536) * 2 powi (- 55)"
    by (rule power_int_add) simp
  moreover have "(2::real) powi (2 + - 1075) \<le> 2 powi (- 536 + - 55)"
    by (intro power_int_increasing) simp_all
  ultimately have "2 powi 2 * half_min_subnormal \<le> t * 2 powi (- 55)"
    by (simp only: t_def half_min_subnormal_def)
  moreover have "(2::real) powi (- 55) = 1 / 2 ^ 55"
    by (simp add: power_int_minus_divide)
  ultimately have h: "4 * half_min_subnormal \<le> t / 2 ^ 55"
    by simp
  from fdiv_tight_error [OF ma m, of ea e]
  obtain mq eq where q: "fdiv (Fin False ma ea) (Fin False m e) = Fin False mq eq"
    and qe: "\<bar>real mq * 2 powi eq - (real ma * 2 powi ea) / (real m * 2 powi e)\<bar>
               \<le> ((real ma * 2 powi ea) / (real m * 2 powi e)) / 2 ^ 53
                  + half_min_subnormal"
    using r by (auto simp: heron_def half_def)
  from fadd_tight_error [of m mq e eq] m
  obtain ms es where s: "fadd (Fin False m e) (Fin False mq eq) = Fin False ms es"
    and se: "\<bar>real ms * 2 powi es - (real m * 2 powi e + real mq * 2 powi eq)\<bar>
               \<le> (real m * 2 powi e + real mq * 2 powi eq) / 2 ^ 53 + half_min_subnormal"
    using r unfolding heron_def q by (auto simp: half_def)
  from fmul_half_tight_error [of ms es]
  have re: "\<bar>real mr * 2 powi er - (real ms * 2 powi es) / 2\<bar>
               \<le> ((real ms * 2 powi es) / 2) / 2 ^ 53 + half_min_subnormal"
    using r unfolding heron_def q s by auto
  show ?thesis
    using A X tpos tt half_min_subnormal_nonneg h qe se re by (rule step_lower_real)
qed

section \<open>Every estimate is finite\<close>

lemma small_exponent:
  assumes x: "is_binary64 (Fin False m e)" and a: "is_binary64 (Fin False ma ea)"
    and lt: "(real m * 2 powi e) * (real m * 2 powi e) < real ma * 2 powi ea"
  shows "e < 970"
proof (rule ccontr)
  assume "\<not> e < 970"
  then have e: "970 \<le> e"
    by simp
  define P :: real where "P = 2 powi 970"
  have "(2::real) powi 0 \<le> 2 powi 970"
    by (intro power_int_increasing) simp_all
  then have P1: "1 \<le> P"
    by (simp add: P_def)
  have Pe: "P \<le> 2 powi e"
    unfolding P_def using e by (intro power_int_increasing) simp_all
  have "2 ^ 52 \<le> m"
    using x e by (auto simp: is_binary64_def)
  then have "real ((2::nat) ^ 52) \<le> real m"
    using of_nat_le_iff by blast
  then have m52: "2 ^ 52 \<le> real m"
    by simp
  have X: "2 ^ 52 * P \<le> real m * 2 powi e"
    using m52 Pe P1 by (intro mult_mono) simp_all
  have "ma < 2 ^ 53" and "ea \<le> 971"
    using a by (simp_all add: is_binary64_def)
  then have "real ma < real ((2::nat) ^ 53)"
    using of_nat_less_iff by blast
  then have ma53: "real ma \<le> 2 ^ 53"
    by simp
  have "(2::real) powi ea \<le> 2 powi (1 + 970)"
    using \<open>ea \<le> 971\<close> by (intro power_int_increasing) simp_all
  also have "\<dots> = 2 powi 1 * 2 powi 970"
    by (rule power_int_add) simp
  finally have ea: "2 powi ea \<le> 2 * P"
    by (simp add: P_def)
  have "real ma * 2 powi ea \<le> 2 ^ 53 * (2 * P)"
    using ma53 ea by (intro mult_mono) simp_all
  then have A: "real ma * 2 powi ea \<le> 2 ^ 54 * P"
    by simp
  have X0: "0 \<le> 2 ^ 52 * P"
    using P1 by simp
  have "(2 ^ 52 * P) * (2 ^ 52 * P) \<le> (real m * 2 powi e) * (real m * 2 powi e)"
    by (rule mult_mono) (use X X0 in simp_all)
  moreover have "P * 1 \<le> P * P"
    using P1 by (intro mult_left_mono) simp_all
  then have "2 ^ 54 * P \<le> (2 ^ 52 * P) * (2 ^ 52 * P)"
    using P1 by simp
  ultimately show False
    using A lt by simp
qed

lemma quadruple_representable:
  assumes "is_binary64 (Fin False m e)" and "e < 970"
  shows "\<exists>Bm Be. is_binary64 (Fin False Bm Be)
     \<and> real Bm * 2 powi Be = 4 * (real m * 2 powi e)"
proof -
  consider "m < 2 ^ 51" | "2 ^ 51 \<le> m" "m < 2 ^ 52" | "2 ^ 52 \<le> m"
    by linarith
  then show ?thesis
  proof cases
    case 1
    with assms have "is_binary64 (Fin False (4 * m) e)"
      by (simp add: is_binary64_def)
    moreover have "real (4 * m) * 2 powi e = 4 * (real m * 2 powi e)"
      by simp
    ultimately show ?thesis
      by blast
  next
    case 2
    with assms have "is_binary64 (Fin False (2 * m) (e + 1))"
      by (simp add: is_binary64_def)
    moreover have "real (2 * m) * 2 powi (e + 1) = 4 * (real m * 2 powi e)"
      by (simp add: power_int_add)
    ultimately show ?thesis
      by blast
  next
    case 3
    with assms have "is_binary64 (Fin False m (e + 2))"
      by (simp add: is_binary64_def)
    moreover have "real m * 2 powi (e + 2) = 4 * (real m * 2 powi e)"
      by (simp add: power_int_add)
    ultimately show ?thesis
      by blast
  qed
qed

lemma heron_finite:
  assumes a: "is_binary64 (Fin False ma ea)" and ma: "0 < ma"
    and x: "is_binary64 (Fin False m e)" and m: "0 < m"
    and low: "real ma * 2 powi ea \<le> 2 * ((real m * 2 powi e) * (real m * 2 powi e))"
  shows "\<exists>m' e'. heron (Fin False ma ea) (Fin False m e) = Fin False m' e'"
proof (cases "real ma * 2 powi ea \<le> (real m * 2 powi e) * (real m * 2 powi e)")
  case True
  from heron_not_above [OF a ma x m True] show ?thesis
    by blast
next
  case False
  then have "(real m * 2 powi e) * (real m * 2 powi e) < real ma * 2 powi ea"
    by simp
  then have e: "e < 970"
    by (rule small_exponent [OF x a])
  then have e': "e < 971"
    by simp
  obtain Dm De where D: "is_binary64 (Fin False Dm De)"
    and Dv: "real Dm * 2 powi De = 2 * (real m * 2 powi e)"
    using double_representable [OF x e'] by blast
  obtain Bm Be where B: "is_binary64 (Fin False Bm Be)"
    and Bv: "real Bm * 2 powi Be = 4 * (real m * 2 powi e)"
    using quadruple_representable [OF x e] by blast
  have vx: "0 < real m * 2 powi e"
    using m by simp
  have "(real ma * 2 powi ea) / (real m * 2 powi e) \<le> 2 * (real m * 2 powi e)"
    using low vx by (simp add: pos_divide_le_eq algebra_simps)
  then have "ratio ma m (ea - e) \<le> real Dm * 2 powi De"
    unfolding ratio_quotient [OF m] Dv .
  from fround_upper [OF ma m D this, of False]
  obtain mq eq where q: "fdiv (Fin False ma ea) (Fin False m e) = Fin False mq eq"
    and qv: "real mq * 2 powi eq \<le> 2 * (real m * 2 powi e)"
    using m unfolding Dv by auto
  obtain n E where npos: "0 < n"
    and fa: "fadd (Fin False m e) (Fin False mq eq) = fround False n 1 E"
    and r: "ratio n 1 E = real m * 2 powi e + real mq * 2 powi eq"
    using fadd_nonneg [of m mq e eq] m by blast
  have "ratio n 1 E \<le> real Bm * 2 powi Be"
    unfolding r Bv using qv vx by simp
  from fround_upper [OF npos _ B this, of False]
  obtain ms es where s: "fadd (Fin False m e) (Fin False mq eq) = Fin False ms es"
    and sv: "real ms * 2 powi es \<le> 4 * (real m * 2 powi e)"
    unfolding fa Bv by auto
  have "real ms * 2 powi es \<le> 2 * (real Dm * 2 powi De)"
    unfolding Dv using sv by simp
  from half_le [OF D this] show ?thesis
    unfolding heron_def q s by blast
qed

lemma is_finite_initial_guess: "is_finite a \<Longrightarrow> is_finite (initial_guess a)"
  by (simp add: initial_guess_def one_def)

lemma near_above_step:
  assumes a: "is_binary64 (Fin False ma ea)" and ma: "0 < ma"
    and x: "is_binary64 x" "positive x" "is_finite x"
    and low: "valof (Fin False ma ea) * (1 - 1 / 2 ^ 50) \<le> valof x * valof x"
  shows "is_binary64 (heron (Fin False ma ea) x) \<and> positive (heron (Fin False ma ea) x)
     \<and> is_finite (heron (Fin False ma ea) x)
     \<and> valof (Fin False ma ea) * (1 - 1 / 2 ^ 50)
        \<le> valof (heron (Fin False ma ea) x) * valof (heron (Fin False ma ea) x)"
proof -
  obtain m e where xe: "x = Fin False m e" and m: "0 < m"
    using positive_finite_cases [OF x(2,3)] by blast
  have xb: "is_binary64 (Fin False m e)"
    using x(1) xe by simp
  define XX where "XX = (real m * 2 powi e) * (real m * 2 powi e)"
  define A where "A = real ma * 2 powi ea"
  have "A * (1 - 1 / 2 ^ 50) \<le> XX"
    using low by (simp add: xe XX_def A_def)
  moreover have "0 \<le> XX"
    by (simp add: XX_def)
  ultimately have "A \<le> 2 * XX"
    by (simp add: right_diff_distrib)
  then have "real ma * 2 powi ea \<le> 2 * ((real m * 2 powi e) * (real m * 2 powi e))"
    by (simp only: XX_def A_def)
  from heron_finite [OF a ma xb m this]
  obtain mr er where r: "heron (Fin False ma ea) (Fin False m e) = Fin False mr er"
    by blast
  have "positive (Fin False m e)"
    using m by simp
  from heron_positive [OF a ma xb this]
  have "positive (Fin False mr er)" and "is_binary64 (Fin False mr er)"
    unfolding r by simp_all
  moreover have "(real ma * 2 powi ea) * (1 - 1 / 2 ^ 50)
      \<le> (real mr * 2 powi er) * (real mr * 2 powi er)"
    using a ma m r by (rule heron_lower)
  ultimately show ?thesis
    unfolding xe r by simp
qed

lemma near_above_initial:
  assumes "is_binary64 a" and "positive a" and "is_finite a"
  shows "is_binary64 (initial_guess a) \<and> positive (initial_guess a)
     \<and> is_finite (initial_guess a)
     \<and> valof a * (1 - 1 / 2 ^ 50) \<le> valof (initial_guess a) * valof (initial_guess a)"
proof -
  have g: "sqrt (valof a) \<le> valof (initial_guess a)" and p: "0 < sqrt (valof a)"
    using initial_guess_above_sqrt [OF assms(2,3)] by simp_all
  have "valof a \<le> (valof (initial_guess a))\<^sup>2"
    using g by (rule sqrt_le_D)
  then have "valof a \<le> valof (initial_guess a) * valof (initial_guess a)"
    by (simp add: power2_eq_square)
  moreover have "0 \<le> valof a"
    using p by simp
  then have "valof a * (1 - 1 / 2 ^ 50) \<le> valof a * 1"
    by (intro mult_left_mono) simp_all
  ultimately have "valof a * (1 - 1 / 2 ^ 50)
      \<le> valof (initial_guess a) * valof (initial_guess a)"
    by simp
  then show ?thesis
    using initial_guess_positive [OF assms(1,2)] is_finite_initial_guess [OF assms(3)]
    by simp
qed



section \<open>The result and the estimates for every positive input\<close>

lemma near_above_sqrt:
  assumes A: "0 \<le> A" and X: "0 \<le> X" and low: "A * (1 - 1 / 2 ^ 50) \<le> X * X"
  shows "sqrt A * (1 - 1 / 2 ^ 50) \<le> X"
proof -
  define c :: real where "c = 1 - 1 / 2 ^ 50"
  have c0: "0 \<le> c" and c1: "c \<le> 1"
    by (simp_all add: c_def)
  have "c * c \<le> c * 1"
    using c0 c1 by (intro mult_left_mono) simp_all
  then have "A * (c * c) \<le> A * c"
    using A by (intro mult_left_mono) simp_all
  moreover have "(sqrt A * c)\<^sup>2 = A * (c * c)"
    using A by (simp add: power_mult_distrib power2_eq_square [of c])
  ultimately have "(sqrt A * c)\<^sup>2 \<le> X\<^sup>2"
    using low by (simp add: c_def power2_eq_square [of X])
  then have "sqrt A * c \<le> X"
    using X by (rule power2_le_imp_le)
  then show ?thesis
    by (simp only: c_def)
qed



section \<open>The exact iteration with relative errors: how fast the estimates fall\<close>

lemma heron_real_halving:
  fixes X B s :: real
  assumes s: "0 < s" and X: "0 < X" and XB: "X \<le> B"
    and low: "s * (1 - 1 / 2 ^ 50) \<le> X" and B: "s * (1 + 1 / 2 ^ 49) \<le> B"
  shows "(X + s * s / X) / 2 \<le> (B + s) / 2"
proof -
  have Bs: "s / 2 ^ 49 \<le> B - s"
    using B by (simp add: algebra_simps)
  have "0 \<le> s / 2 ^ 49"
    using s by simp
  with Bs have Bs0: "0 \<le> B - s"
    by linarith
  have sBs: "0 \<le> s * (B - s)"
    using s Bs0 by simp
  have key: "X * X + s * s \<le> (B + s) * X"
  proof (cases "s \<le> X")
    case True
    have "(X - s) * (B - X) \<ge> 0"
      using True XB by simp
    moreover note sBs
    moreover have "(B + s) * X - (X * X + s * s) = (X - s) * (B - X) + s * (B - s)"
      by (simp add: algebra_simps)
    ultimately show ?thesis
      by linarith
  next
    case False
    define t where "t = s - X"
    define d where "d = s / 2 ^ 50"
    have t0: "0 \<le> t" and ts: "t \<le> d"
      using False low by (simp_all add: t_def d_def algebra_simps)
    have d0: "0 \<le> d"
      using s by (simp add: d_def)
    have BX: "0 \<le> B - X"
      using XB by simp
    have dB: "2 * d \<le> B - s"
      using Bs by (simp add: d_def)
    have "t * (B - X) \<le> d * (B - X)"
      using ts BX by (rule mult_right_mono)
    also have "\<dots> = d * (B - s) + d * t"
      by (simp add: t_def algebra_simps)
    also have "d * t \<le> d * d"
      using ts d0 by (intro mult_left_mono) simp_all
    finally have 1: "t * (B - X) \<le> d * (B - s) + d * d"
      by simp
    have "d \<le> B - s"
      using dB d0 by linarith
    then have "d * d \<le> d * (B - s)"
      using d0 by (intro mult_left_mono) simp_all
    with 1 have 2: "t * (B - X) \<le> 2 * (d * (B - s))"
      by simp
    have "2 * d \<le> s"
      using s by (simp add: d_def)
    then have "(2 * d) * (B - s) \<le> s * (B - s)"
      using Bs0 by (rule mult_right_mono)
    with 2 have 3: "t * (B - X) \<le> s * (B - s)"
      by simp
    have "(B + s) * X - (X * X + s * s) = s * (B - s) - t * (B - X)"
      by (simp add: t_def algebra_simps)
    with 3 show ?thesis
      by linarith
  qed
  have "X + s * s / X = (X * X + s * s) / X"
    using X by (simp add: field_simps)
  also have "\<dots> \<le> ((B + s) * X) / X"
    using key X by (intro divide_right_mono) simp_all
  also have "\<dots> = B + s"
    using X by simp
  finally have "X + s * s / X \<le> B + s" .
  then show ?thesis
    by (rule divide_right_mono) simp
qed

lemma heron_real_quadratic:
  fixes X s b :: real
  assumes s: "0 < s" and X: "0 < X"
    and low: "s * (1 - 1 / 2 ^ 50) \<le> X" and up: "X \<le> s * (1 + b)" and b: "1 / 2 ^ 50 \<le> b"
  shows "(X + s * s / X) / 2 \<le> s * (1 + 51 / 100 * (b * b))"
proof -
  define t where "t = X - s"
  have b0: "0 \<le> b"
    using b by (rule order_trans [rotated]) simp
  have t1: "t \<le> s * b" and t2: "- (s * b) \<le> t"
  proof -
    show "t \<le> s * b"
      using up by (simp add: t_def algebra_simps)
    have "s * (1 / 2 ^ 50) \<le> s * b"
      using b s by (intro mult_left_mono) simp_all
    with low show "- (s * b) \<le> t"
      by (simp add: t_def algebra_simps)
  qed
  have sb0: "0 \<le> s * b"
    using s b0 by simp
  have "\<bar>t\<bar> \<le> s * b"
    using t1 t2 by (simp add: abs_le_iff)
  then have "\<bar>t\<bar> * \<bar>t\<bar> \<le> (s * b) * (s * b)"
    by (intro mult_mono) simp_all
  then have tt: "t * t \<le> (s * s) * (b * b)"
    by (simp add: algebra_simps)
  have sX: "s \<le> 102 / 100 * X"
    using low s by (simp add: algebra_simps)
  have "s * s \<le> s * (102 / 100 * X)"
    using sX s by (intro mult_left_mono) simp_all
  then have "(s * s) * (b * b) \<le> (s * (102 / 100 * X)) * (b * b)"
    by (intro mult_right_mono) simp_all
  with tt have key: "t * t \<le> 102 / 100 * (b * b) * (s * X)"
    by (simp add: algebra_simps)
  have "X * X + s * s = 2 * (s * X) + t * t"
    by (simp add: t_def algebra_simps)
  define R where "R = s * (1 + 51 / 100 * (b * b))"
  from key have poly: "X * X + s * s \<le> (2 * R) * X"
    unfolding \<open>X * X + s * s = 2 * (s * X) + t * t\<close> by (simp add: R_def algebra_simps)
  have "X + s * s / X = (X * X + s * s) / X"
    using X by (simp add: field_simps)
  also have "\<dots> \<le> ((2 * R) * X) / X"
    using poly X by (intro divide_right_mono) simp_all
  also have "\<dots> = 2 * R"
    using X by simp
  finally have "(X + s * s / X) / 2 \<le> R"
    by simp
  then show ?thesis
    by (simp only: R_def)
qed

lemma power_one_plus_le:
  fixes x :: real
  assumes x: "0 \<le> x" and nx: "real n * x \<le> 1 / 2"
  shows "(1 + x) ^ n \<le> 1 + 2 * (real n * x)"
  using nx
proof (induction n)
  case 0
  show ?case by simp
next
  case (Suc n)
  define y where "y = real n * x"
  have y0: "0 \<le> y"
    using x by (simp add: y_def)
  have yx: "y + x \<le> 1 / 2"
    using Suc.prems by (simp add: y_def algebra_simps)
  then have "real n * x \<le> 1 / 2"
    using x by (simp add: y_def)
  then have ih: "(1 + x) ^ n \<le> 1 + 2 * y"
    using Suc.IH by (simp add: y_def)
  have "(1 + x) ^ Suc n = (1 + x) ^ n * (1 + x)"
    by simp
  also have "\<dots> \<le> (1 + 2 * y) * (1 + x)"
    using ih x by (intro mult_right_mono) simp_all
  also have "\<dots> = 1 + 2 * y + x + (2 * y) * x"
    by (simp add: algebra_simps)
  also have "(2 * y) * x \<le> 1 * x"
    using yx y0 x by (intro mult_right_mono) simp_all
  finally have "(1 + x) ^ Suc n \<le> 1 + 2 * (y + x)"
    by simp
  then show ?case
    by (simp add: y_def algebra_simps)
qed

lemma heron_seq_bound:
  fixes X :: "nat \<Rightarrow> real"
  assumes s: "0 < s"
    and pos: "\<And>n. 0 < X n"
    and low: "\<And>n. s * (1 - 1 / 2 ^ 50) \<le> X n"
    and up: "\<And>n. X (Suc n) \<le> (X n + s * s / X n) / 2 * (1 + 1 / 2 ^ 50)"
  shows "X n \<le> (X 0 / 2 ^ n + s * (1 + 1 / 2 ^ 49)) * (1 + 1 / 2 ^ 50) ^ n"
proof (induction n)
  case 0
  have "0 \<le> s * (1 + 1 / 2 ^ 49)"
    using s by simp
  then show ?case
    by simp
next
  case (Suc n)
  define c :: real where "c = 1 + 1 / 2 ^ 50"
  define C where "C = c ^ n"
  define k where "k = s * (1 + 1 / 2 ^ 49)"
  define H where "H = X 0 / 2 ^ n"
  define B where "B = (H + k) * C"
  have c1: "1 \<le> c"
    by (simp add: c_def)
  have C1: "1 \<le> C"
    unfolding C_def using c1 by (rule one_le_power)
  have H0: "0 \<le> H"
    using pos [of 0] by (simp add: H_def)
  have ks: "s \<le> k"
    using s by (simp add: k_def algebra_simps)
  have k0: "0 \<le> k"
    using s ks by linarith
  have XB: "X n \<le> B"
    using Suc.IH by (simp add: B_def H_def k_def C_def c_def)
  have "(H + k) * 1 \<le> (H + k) * C"
    using C1 H0 k0 by (intro mult_left_mono) simp_all
  then have HkB: "H + k \<le> B"
    by (simp add: B_def)
  then have kB: "s * (1 + 1 / 2 ^ 49) \<le> B"
    using H0 by (simp add: k_def)
  have "(X n + s * s / X n) / 2 \<le> (B + s) / 2"
    using s pos [of n] XB low [of n] kB by (rule heron_real_halving)
  then have "(X n + s * s / X n) / 2 * c \<le> (B + s) / 2 * c"
    using c1 by (intro mult_right_mono) simp_all
  with up [of n] have 1: "X (Suc n) \<le> (B + s) / 2 * c"
    by (simp add: c_def)
  have "s * 1 \<le> s * C"
    using C1 s by (intro mult_left_mono) simp_all
  then have "B + s \<le> (H + k) * C + s * C"
    by (simp add: B_def)
  also have "\<dots> = (H + (k + s)) * C"
    by (simp add: algebra_simps)
  also have "\<dots> \<le> (H + 2 * k) * C"
    using ks C1 by (intro mult_right_mono) simp_all
  finally have "(B + s) / 2 \<le> (H / 2 + k) * C"
    by (simp add: algebra_simps)
  then have "(B + s) / 2 * c \<le> ((H / 2 + k) * C) * c"
    using c1 by (intro mult_right_mono) simp_all
  with 1 have "X (Suc n) \<le> (H / 2 + k) * (C * c)"
    by (simp add: algebra_simps)
  then show ?case
    by (simp add: H_def k_def C_def c_def algebra_simps)
qed

lemma heron_seq_step:
  fixes X :: "nat \<Rightarrow> real"
  assumes s: "0 < s"
    and pos: "0 < X n"
    and low: "s * (1 - 1 / 2 ^ 50) \<le> X n"
    and up: "X (Suc n) \<le> (X n + s * s / X n) / 2 * (1 + 1 / 2 ^ 50)"
    and b: "X n \<le> s * (1 + b)" "1 / 2 ^ 50 \<le> b"
    and num: "(1 + 51 / 100 * (b * b)) * (1 + 1 / 2 ^ 50) \<le> 1 + b'"
  shows "X (Suc n) \<le> s * (1 + b')"
proof -
  have "(X n + s * s / X n) / 2 \<le> s * (1 + 51 / 100 * (b * b))"
    using s pos low b by (rule heron_real_quadratic)
  then have "(X n + s * s / X n) / 2 * (1 + 1 / 2 ^ 50)
      \<le> s * (1 + 51 / 100 * (b * b)) * (1 + 1 / 2 ^ 50)"
    by (intro mult_right_mono) simp_all
  also have "\<dots> = s * ((1 + 51 / 100 * (b * b)) * (1 + 1 / 2 ^ 50))"
    by simp
  also have "\<dots> \<le> s * (1 + b')"
    using num s by (intro mult_left_mono) simp_all
  finally show ?thesis
    using up by linarith
qed

lemma heron_seq_close:
  fixes X :: "nat \<Rightarrow> real"
  assumes s: "0 < s"
    and pos: "\<And>n. 0 < X n"
    and low: "\<And>n. s * (1 - 1 / 2 ^ 50) \<le> X n"
    and up: "\<And>n. X (Suc n) \<le> (X n + s * s / X n) / 2 * (1 + 1 / 2 ^ 50)"
    and start: "X k \<le> s * (1 + 101 / 100)"
  shows "\<bar>X (Suc (k + 6)) - X (k + 6)\<bar> \<le> (1 + X (Suc (k + 6))) / 2 ^ 40"
proof -
  have step: "X (Suc n) \<le> s * (1 + b')"
    if "X n \<le> s * (1 + b)" and "1 / 2 ^ 50 \<le> b"
      and "(1 + 51 / 100 * (b * b)) * (1 + 1 / 2 ^ 50) \<le> 1 + b'" for n b b'
    using s pos [of n] low [of n] up [of n] that by (rule heron_seq_step)
  have 1: "X (Suc k) \<le> s * (1 + 53 / 100)"
    by (rule step [OF start]) simp_all
  have 2: "X (Suc (Suc k)) \<le> s * (1 + 15 / 100)"
    by (rule step [OF 1]) simp_all
  have 3: "X (Suc (Suc (Suc k))) \<le> s * (1 + 12 / 1000)"
    by (rule step [OF 2]) simp_all
  have 4: "X (Suc (Suc (Suc (Suc k)))) \<le> s * (1 + 1 / 2 ^ 13)"
    by (rule step [OF 3]) simp_all
  have 5: "X (Suc (Suc (Suc (Suc (Suc k))))) \<le> s * (1 + 1 / 2 ^ 26)"
    by (rule step [OF 4]) simp_all
  have 6: "X (Suc (Suc (Suc (Suc (Suc (Suc k)))))) \<le> s * (1 + 1 / 2 ^ 49)"
    by (rule step [OF 5]) simp_all
  have 7: "X (Suc (Suc (Suc (Suc (Suc (Suc (Suc k))))))) \<le> s * (1 + 1 / 2 ^ 49)"
    by (rule step [OF 6]) simp_all
  have e6: "k + 6 = Suc (Suc (Suc (Suc (Suc (Suc k)))))"
    by simp
  define U where "U = X (k + 6)"
  define V where "V = X (Suc (k + 6))"
  have "U \<le> s * (1 + 1 / 2 ^ 49)" "V \<le> s * (1 + 1 / 2 ^ 49)"
    using 6 7 unfolding U_def V_def e6 by simp_all
  moreover have "s * (1 - 1 / 2 ^ 50) \<le> U" "s * (1 - 1 / 2 ^ 50) \<le> V"
    unfolding U_def V_def by (rule low)+
  ultimately have "\<bar>V - U\<bar> \<le> (1 + V) / 2 ^ 40"
    using s by (simp add: abs_le_iff algebra_simps) argo
  then show ?thesis
    by (simp only: U_def V_def)
qed

lemma heron_seq_floor:
  fixes X :: "nat \<Rightarrow> real"
  assumes s: "0 < s"
    and pos: "\<And>n. 0 < X n"
    and low: "\<And>n. s * (1 - 1 / 2 ^ 50) \<le> X n"
    and up: "\<And>n. X (Suc n) \<le> (X n + s * s / X n) / 2 * (1 + 1 / 2 ^ 50)"
    and start: "X 0 = 1" and small: "s \<le> 1 / 2 ^ 53"
  shows "\<bar>X (Suc 41) - X 41\<bar> \<le> (1 + X (Suc 41)) / 2 ^ 40"
proof -
  have bound: "X n \<le> (X 0 / 2 ^ n + s * (1 + 1 / 2 ^ 49)) * (1 + 1 / 2 ^ 50) ^ n" for n
    using s pos low up by (rule heron_seq_bound)
  have cp: "(1 + 1 / 2 ^ 50) ^ n \<le> (1 + 1 / 2 ^ 40 :: real)" if "n \<le> 64" for n
  proof -
    have "real n \<le> 64"
      using that by simp
    then have nx: "real n * (1 / 2 ^ 50) \<le> 64 * (1 / 2 ^ 50)"
      by (intro mult_right_mono) simp_all
    then have "real n * (1 / 2 ^ 50) \<le> 1 / 2"
      by simp
    then have "(1 + 1 / 2 ^ 50) ^ n \<le> 1 + 2 * (real n * (1 / 2 ^ 50 :: real))"
      by (intro power_one_plus_le) simp_all
    with nx show ?thesis
      by simp
  qed
  define k where "k = s * (1 + 1 / 2 ^ 49)"
  have k: "k \<le> 1 / 2 ^ 52" "0 \<le> k"
    using small s by (simp_all add: k_def)
  have "X 41 \<le> (1 / 2 ^ 41 + k) * (1 + 1 / 2 ^ 50) ^ 41"
    using bound [of 41] by (simp only: start k_def)
  also have "\<dots> \<le> (1 / 2 ^ 41 + 1 / 2 ^ 52) * (1 + 1 / 2 ^ 50) ^ 41"
    using k by (intro mult_right_mono) simp_all
  also have "\<dots> \<le> (1 / 2 ^ 41 + 1 / 2 ^ 52) * (1 + 1 / 2 ^ 40)"
    using cp [of 41] by (intro mult_left_mono) simp_all
  also have "\<dots> \<le> 1 / 2 ^ 40"
    by simp
  finally have 1: "X 41 \<le> 1 / 2 ^ 40" .
  have "X 42 \<le> (1 / 2 ^ 42 + k) * (1 + 1 / 2 ^ 50) ^ 42"
    using bound [of 42] by (simp only: start k_def)
  also have "\<dots> \<le> (1 / 2 ^ 42 + 1 / 2 ^ 52) * (1 + 1 / 2 ^ 50) ^ 42"
    using k by (intro mult_right_mono) simp_all
  also have "\<dots> \<le> (1 / 2 ^ 42 + 1 / 2 ^ 52) * (1 + 1 / 2 ^ 40)"
    using cp [of 42] by (intro mult_left_mono) simp_all
  also have "\<dots> \<le> 1 / 2 ^ 40"
    by simp
  finally have 2: "X 42 \<le> 1 / 2 ^ 40" .
  define U where "U = X 41"
  define V where "V = X (Suc 41)"
  have "U \<le> 1 / 2 ^ 40" "V \<le> 1 / 2 ^ 40" "0 < U" "0 < V"
    using 1 2 pos [of 41] pos [of 42] by (simp_all add: U_def V_def)
  then have "\<bar>V - U\<bar> \<le> (1 + V) / 2 ^ 40"
    by (simp add: abs_le_iff) argo
  then show ?thesis
    by (simp only: U_def V_def)
qed

lemma heron_seq_stops:
  fixes X :: "nat \<Rightarrow> real"
  assumes s: "0 < s"
    and pos: "\<And>n. 0 < X n"
    and low: "\<And>n. s * (1 - 1 / 2 ^ 50) \<le> X n"
    and up: "\<And>n. X (Suc n) \<le> (X n + s * s / X n) / 2 * (1 + 1 / 2 ^ 50)"
    and start: "X 0 \<le> s * 2 ^ 53 \<or> (X 0 = 1 \<and> s \<le> 1 / 2 ^ 53)"
  shows "\<exists>n<60. \<bar>X (Suc n) - X n\<bar> \<le> (1 + X (Suc n)) / 2 ^ 40"
  using start
proof
  assume st: "X 0 \<le> s * 2 ^ 53"
  have cp: "(1 + 1 / 2 ^ 50) ^ n \<le> (1 + 1 / 2 ^ 40 :: real)" if "n \<le> 64" for n
  proof -
    have "real n \<le> 64"
      using that by simp
    then have nx: "real n * (1 / 2 ^ 50) \<le> 64 * (1 / 2 ^ 50)"
      by (intro mult_right_mono) simp_all
    then have "real n * (1 / 2 ^ 50) \<le> 1 / 2"
      by simp
    then have "(1 + 1 / 2 ^ 50) ^ n \<le> 1 + 2 * (real n * (1 / 2 ^ 50 :: real))"
      by (intro power_one_plus_le) simp_all
    with nx show ?thesis
      by simp
  qed
  define k where "k = s * (1 + 1 / 2 ^ 49)"
  have k0: "0 \<le> k"
    using s by (simp add: k_def)
  have "X 53 \<le> (X 0 / 2 ^ 53 + k) * (1 + 1 / 2 ^ 50) ^ 53"
    unfolding k_def using s pos low up by (rule heron_seq_bound)
  also have "\<dots> \<le> (s + k) * (1 + 1 / 2 ^ 50) ^ 53"
    using st by (intro mult_right_mono) simp_all
  also have "\<dots> \<le> (s + k) * (1 + 1 / 2 ^ 40)"
    using cp [of 53] s k0 by (intro mult_left_mono) simp_all
  also have "\<dots> = s * ((2 + 1 / 2 ^ 49) * (1 + 1 / 2 ^ 40))"
    by (simp add: k_def algebra_simps)
  also have "\<dots> \<le> s * (1 + 101 / 100)"
    using s by (intro mult_left_mono) simp_all
  finally have "X 53 \<le> s * (1 + 101 / 100)" .
  with s pos low up
  have "\<bar>X (Suc (53 + 6)) - X (53 + 6)\<bar> \<le> (1 + X (Suc (53 + 6))) / 2 ^ 40"
    by (rule heron_seq_close)
  then have "\<bar>X (Suc 59) - X 59\<bar> \<le> (1 + X (Suc 59)) / 2 ^ 40"
    by simp
  then show ?thesis
    by (intro exI [of _ 59]) simp
next
  assume "X 0 = 1 \<and> s \<le> 1 / 2 ^ 53"
  then have "X 0 = 1" and "s \<le> 1 / 2 ^ 53"
    by simp_all
  with s pos low up have "\<bar>X (Suc 41) - X 41\<bar> \<le> (1 + X (Suc 41)) / 2 ^ 40"
    by (rule heron_seq_floor)
  then show ?thesis
    by (intro exI [of _ 41]) simp
qed

section \<open>Large inputs: the estimates while they are halved\<close>

lemma heron_real_above:
  fixes X s b :: real
  assumes s: "0 < s" and X: "0 < X"
    and low: "s * (1 - 1 / 2 ^ 50) \<le> X" and up: "X \<le> s * (1 + b)"
    and b: "1 / 2 ^ 40 \<le> b" and b2: "b \<le> 2"
  shows "(X + s * s / X) / 2 * (1 + b) \<le> s * (1 + b + b * b / 2)"
proof -
  have b0: "0 < b"
    using b by (rule less_le_trans [rotated]) simp
  have poly: "(X * X + s * s) * (1 + b) \<le> (2 * (s * (1 + b + b * b / 2))) * X"
  proof (cases "s \<le> X")
    case True
    define Y where "Y = s * (1 + b)"
    have XY: "X \<le> Y"
      using up by (simp add: Y_def)
    have sY: "s \<le> Y"
      using True XY by simp
    have "s * s \<le> X * Y"
      using True sY s by (intro mult_mono) simp_all
    then have "0 \<le> (Y - X) * (X * Y - s * s)"
      using XY by (intro mult_nonneg_nonneg) simp_all
    then have "(X * X + s * s) * Y \<le> X * (Y * Y + s * s)"
      by (simp add: algebra_simps)
    also have "Y * Y + s * s = s * (2 * (s * (1 + b + b * b / 2)))"
      by (simp add: Y_def algebra_simps)
    finally have "s * ((X * X + s * s) * (1 + b)) \<le> s * ((2 * (s * (1 + b + b * b / 2))) * X)"
      by (simp add: Y_def algebra_simps)
    then show ?thesis
      using s by (simp only: mult_le_cancel_left_pos)
  next
    case False
    define t where "t = s - X"
    have t0: "0 \<le> t"
      using False by (simp add: t_def)
    have t1: "t \<le> s * (1 / 2 ^ 50)"
      using low by (simp add: t_def algebra_simps)
    have "t * t \<le> (s * (1 / 2 ^ 50)) * (s * (1 / 2 ^ 50))"
      using t0 t1 by (intro mult_mono) simp_all
    then have tt: "t * t \<le> (s * s) * (1 / 2 ^ 100)"
      by (simp add: algebra_simps)
    have "(1 / 2 ^ 40) * (1 / 2 ^ 40) \<le> b * b"
      using b by (intro mult_mono) simp_all
    then have bb: "1 / 2 ^ 80 \<le> b * b"
      by simp
    have sX: "s * (1 / 2) \<le> X"
      using low s by (simp add: algebra_simps)
    have "s * (s * (1 / 2)) \<le> s * X"
      using sX s by (intro mult_left_mono) simp_all
    then have "(s * (s * (1 / 2))) * (1 / 2 ^ 80) \<le> (s * X) * (b * b)"
      using bb s X by (intro mult_mono) simp_all
    then have sXbb: "(s * s) * (1 / 2 ^ 81) \<le> (s * X) * (b * b)"
      by (simp add: algebra_simps)
    have ss0: "0 \<le> s * s"
      using s by simp
    have "(t * t) * (1 + b) \<le> (t * t) * 3"
      using b2 by (intro mult_left_mono) simp_all
    also have "\<dots> \<le> ((s * s) * (1 / 2 ^ 100)) * 3"
      using tt by simp
    also have "\<dots> \<le> (s * s) * (1 / 2 ^ 81)"
      using ss0 by simp
    finally have key: "(t * t) * (1 + b) \<le> (s * X) * (b * b)"
      using sXbb by linarith
    have "X * X + s * s = 2 * (s * X) + t * t"
      by (simp add: t_def algebra_simps)
    then have "(X * X + s * s) * (1 + b) = 2 * (s * X) * (1 + b) + (t * t) * (1 + b)"
      by (simp add: algebra_simps)
    also have "\<dots> \<le> 2 * (s * X) * (1 + b) + (s * X) * (b * b)"
      using key by simp
    also have "\<dots> = (2 * (s * (1 + b + b * b / 2))) * X"
      by (simp add: algebra_simps)
    finally show ?thesis .
  qed
  define R where "R = s * (1 + b + b * b / 2)"
  have "(X + s * s / X) * (1 + b) = ((X * X + s * s) * (1 + b)) / X"
    using X by (simp add: field_simps)
  also have "\<dots> \<le> ((2 * R) * X) / X"
    using poly X unfolding R_def by (intro divide_right_mono) simp_all
  also have "\<dots> = 2 * R"
    using X by simp
  finally have "(X + s * s / X) / 2 * (1 + b) \<le> R"
    by simp
  then show ?thesis
    by (simp only: R_def)
qed

lemma heron_seq_step_above:
  fixes X :: "nat \<Rightarrow> real"
  assumes s: "0 < s"
    and pos: "0 < X n"
    and low: "s * (1 - 1 / 2 ^ 50) \<le> X n"
    and up: "X (Suc n) \<le> (X n + s * s / X n) / 2 * (1 + 1 / 2 ^ 50)"
    and b: "X n \<le> s * (1 + b)" "1 / 2 ^ 40 \<le> b" "b \<le> 2"
    and num: "(1 + b + b * b / 2) * (1 + 1 / 2 ^ 50) \<le> (1 + b') * (1 + b)"
  shows "X (Suc n) \<le> s * (1 + b')"
proof -
  define F where "F = (X n + s * s / X n) / 2"
  have "(0::real) < 1 / 2 ^ 40"
    by simp
  with b(2) have b0: "0 < 1 + b"
    by linarith
  have "F * (1 + b) \<le> s * (1 + b + b * b / 2)"
    unfolding F_def using s pos low b by (rule heron_real_above)
  then have "(F * (1 + b)) * (1 + 1 / 2 ^ 50) \<le> (s * (1 + b + b * b / 2)) * (1 + 1 / 2 ^ 50)"
    by (intro mult_right_mono) simp_all
  also have "\<dots> = s * ((1 + b + b * b / 2) * (1 + 1 / 2 ^ 50))"
    by simp
  also have "\<dots> \<le> s * ((1 + b') * (1 + b))"
    using num s by (intro mult_left_mono) simp_all
  finally have "(F * (1 + 1 / 2 ^ 50)) * (1 + b) \<le> (s * (1 + b')) * (1 + b)"
    by (simp add: mult.assoc mult.left_commute mult.commute)
  then have "F * (1 + 1 / 2 ^ 50) \<le> s * (1 + b')"
    using b0 by (simp only: mult_le_cancel_right_pos)
  with up show ?thesis
    unfolding F_def by linarith
qed

lemma heron_seq_close_above:
  fixes X :: "nat \<Rightarrow> real"
  assumes s: "0 < s"
    and pos: "\<And>n. 0 < X n"
    and low: "\<And>n. s * (1 - 1 / 2 ^ 50) \<le> X n"
    and up: "\<And>n. X (Suc n) \<le> (X n + s * s / X n) / 2 * (1 + 1 / 2 ^ 50)"
    and start: "X k \<le> s * (1 + 6 / 5)"
  shows "\<bar>X (Suc (k + 5)) - X (k + 5)\<bar> \<le> (1 + X (Suc (k + 5))) / 2 ^ 40"
proof -
  have step: "X (Suc n) \<le> s * (1 + b')"
    if "X n \<le> s * (1 + b)" and "1 / 2 ^ 40 \<le> b" and "b \<le> 2"
      and "(1 + b + b * b / 2) * (1 + 1 / 2 ^ 50) \<le> (1 + b') * (1 + b)" for n b b'
    using s pos [of n] low [of n] up [of n] that by (rule heron_seq_step_above)
  have last: "X (Suc n) \<le> s * (1 + b')"
    if "X n \<le> s * (1 + b)" and "1 / 2 ^ 50 \<le> b"
      and "(1 + 51 / 100 * (b * b)) * (1 + 1 / 2 ^ 50) \<le> 1 + b'" for n b b'
    using s pos [of n] low [of n] up [of n] that by (rule heron_seq_step)
  have 1: "X (Suc k) \<le> s * (1 + 33 / 100)"
    by (rule step [OF start]) simp_all
  have 2: "X (Suc (Suc k)) \<le> s * (1 + 41 / 1000)"
    by (rule step [OF 1]) simp_all
  have 3: "X (Suc (Suc (Suc k))) \<le> s * (1 + 1 / 2 ^ 10)"
    by (rule step [OF 2]) simp_all
  have 4: "X (Suc (Suc (Suc (Suc k)))) \<le> s * (1 + 1 / 2 ^ 21)"
    by (rule step [OF 3]) simp_all
  have 5: "X (Suc (Suc (Suc (Suc (Suc k))))) \<le> s * (1 + 1 / 2 ^ 42)"
    by (rule step [OF 4]) simp_all
  have 6: "X (Suc (Suc (Suc (Suc (Suc (Suc k)))))) \<le> s * (1 + 1 / 2 ^ 49)"
    by (rule last [OF 5]) simp_all
  have e5: "k + 5 = Suc (Suc (Suc (Suc (Suc k))))"
    by simp
  define U where "U = X (k + 5)"
  define V where "V = X (Suc (k + 5))"
  have "U \<le> s * (1 + 1 / 2 ^ 42)" "V \<le> s * (1 + 1 / 2 ^ 49)"
    using 5 6 unfolding U_def V_def e5 by simp_all
  moreover have "s * (1 - 1 / 2 ^ 50) \<le> U" "s * (1 - 1 / 2 ^ 50) \<le> V"
    unfolding U_def V_def by (rule low)+
  ultimately have "\<bar>V - U\<bar> \<le> (1 + V) / 2 ^ 40"
    using s by (simp add: abs_le_iff algebra_simps) argo
  then show ?thesis
    by (simp only: U_def V_def)
qed

lemma heron_seq_lower:
  fixes X :: "nat \<Rightarrow> real"
  assumes pos: "\<And>n. 0 < X n"
    and down: "\<And>n. X n \<le> 2 * X (Suc n) * (1 + 1 / 2 ^ 50)"
  shows "X 0 \<le> X n * (2 ^ n * (1 + 1 / 2 ^ 50) ^ n)"
proof (induction n)
  case 0
  show ?case by simp
next
  case (Suc n)
  define c where "c = 2 ^ n * (1 + 1 / 2 ^ 50 :: real) ^ n"
  have c0: "0 \<le> c"
    by (simp add: c_def)
  have "X 0 \<le> X n * c"
    using Suc.IH by (simp only: c_def)
  also have "\<dots> \<le> (2 * X (Suc n) * (1 + 1 / 2 ^ 50)) * c"
    using down [of n] c0 by (rule mult_right_mono)
  also have "\<dots> = X (Suc n) * (2 ^ Suc n * (1 + 1 / 2 ^ 50) ^ Suc n)"
    by (simp add: c_def)
  finally show ?case .
qed

lemma halving_sum_step:
  "((4::real) ^ Suc n - 1) / (3 * 2 ^ Suc n) = ((4 ^ n - 1) / (3 * 2 ^ n) + 2 ^ n) / 2"
proof -
  define q where "q = (2::real) ^ n"
  have q: "0 < q"
    by (simp add: q_def)
  have "(4::real) ^ n = (2 * 2) ^ n"
    by simp
  also have "\<dots> = q * q"
    unfolding q_def by (rule power_mult_distrib)
  finally have 4: "(4::real) ^ n = q * q" .
  have "((4::real) * (q * q) - 1) / (3 * (2 * q)) = ((q * q - 1) / (3 * q) + q) / 2"
    using q by (simp add: field_simps)
  then show ?thesis
    by (simp add: 4 q_def)
qed

lemma power_roundoff_le:
  assumes "n \<le> 64"
  shows "(1 + 1 / 2 ^ 50) ^ n \<le> (1 + 1 / 2 ^ 40 :: real)"
proof -
  have "real n \<le> 64"
    using assms by simp
  then have nx: "real n * (1 / 2 ^ 50) \<le> 64 * (1 / 2 ^ 50)"
    by (intro mult_right_mono) simp_all
  then have "real n * (1 / 2 ^ 50) \<le> 1 / 2"
    by simp
  then have "(1 + 1 / 2 ^ 50) ^ n \<le> 1 + 2 * (real n * (1 / 2 ^ 50 :: real))"
    by (intro power_one_plus_le) simp_all
  with nx show ?thesis
    by simp
qed

lemma heron_seq_bound_large:
  fixes X :: "nat \<Rightarrow> real"
  assumes s: "0 < s"
    and pos: "\<And>n. 0 < X n"
    and up: "\<And>n. X (Suc n) \<le> (X n + s * s / X n) / 2 * (1 + 1 / 2 ^ 50)"
    and down: "\<And>n. X n \<le> 2 * X (Suc n) * (1 + 1 / 2 ^ 50)"
    and start: "X 0 = s * s"
  shows "n \<le> 64 \<Longrightarrow>
    X n \<le> (X 0 / 2 ^ n + (1 + 1 / 2 ^ 40) * ((4 ^ n - 1) / (3 * 2 ^ n))) * (1 + 1 / 2 ^ 50) ^ n"
proof (induction n)
  case 0
  show ?case by simp
next
  case (Suc n)
  define c where "c = (1 + 1 / 2 ^ 40 :: real)"
  define p where "p = (1 + 1 / 2 ^ 50 :: real) ^ n"
  define T where "T = ((4::real) ^ n - 1) / (3 * 2 ^ n)"
  define q where "q = (2::real) ^ n"
  define B where "B = X 0 / q + c * T"
  define Z where "Z = ((B + q * c) / 2) * p"
  define F where "F = (X n + s * s / X n) / 2"
  define G where "G = (B + q * c) / 2"
  have n: "n \<le> 64"
    using Suc.prems by simp
  have p1: "1 \<le> p"
    unfolding p_def by (rule one_le_power) simp
  have pc: "p \<le> c"
    unfolding p_def c_def using n by (rule power_roundoff_le)
  have q0: "0 < q"
    by (simp add: q_def)
  have T0: "0 \<le> T"
    by (simp add: T_def)
  have c0: "0 < c"
    by (simp add: c_def)
  have ih: "X n \<le> B * p"
    using Suc.IH n by (simp add: B_def c_def p_def T_def q_def)
  have "s * s \<le> X n * (q * p)"
    using heron_seq_lower [of X n, OF pos down] by (simp add: start q_def p_def)
  also have "\<dots> \<le> X n * (q * c)"
    using pc q0 pos [of n] by (intro mult_left_mono) simp_all
  finally have "s * s / X n \<le> (X n * (q * c)) / X n"
    using pos [of n] by (intro divide_right_mono) simp_all
  then have quot: "s * s / X n \<le> q * c"
    using pos [of n] by simp
  have B0: "0 \<le> B"
    unfolding B_def using pos [of 0] q0 c0 T0 by (intro add_nonneg_nonneg) simp_all
  have qc0: "0 \<le> q * c"
    using q0 c0 by simp
  have "q * c = (q * c) * 1"
    by simp
  also have "\<dots> \<le> (q * c) * p"
    using p1 qc0 by (rule mult_left_mono)
  finally have "X n + s * s / X n \<le> B * p + (q * c) * p"
    using ih quot by linarith
  also have "B * p + (q * c) * p = 2 * Z"
    by (simp add: Z_def algebra_simps)
  finally have "(X n + s * s / X n) / 2 \<le> Z"
    by simp
  then have FG: "F \<le> G * p"
    by (simp only: Z_def F_def G_def)
  have "X (Suc n) \<le> F * (1 + 1 / 2 ^ 50)"
    using up [of n] by (simp only: F_def)
  also have "\<dots> \<le> (G * p) * (1 + 1 / 2 ^ 50)"
    using FG by (intro mult_right_mono) simp_all
  also have "\<dots> = G * (1 + 1 / 2 ^ 50) ^ Suc n"
    by (simp add: p_def)
  finally have 1: "X (Suc n) \<le> G * (1 + 1 / 2 ^ 50) ^ Suc n" .
  have "G = X 0 / (2 * q) + c * ((T + q) / 2)"
    by (simp add: G_def B_def algebra_simps add_divide_distrib)
  also have "(T + q) / 2 = ((4::real) ^ Suc n - 1) / (3 * 2 ^ Suc n)"
    unfolding T_def q_def by (rule halving_sum_step [symmetric])
  also have "2 * q = 2 ^ Suc n"
    by (simp add: q_def)
  finally have G: "G = X 0 / 2 ^ Suc n + c * ((4 ^ Suc n - 1) / (3 * 2 ^ Suc n))" .
  show ?case
    using 1 unfolding G c_def .
qed

lemma heron_seq_stops_large:
  fixes X :: "nat \<Rightarrow> real"
  assumes s: "0 < s"
    and pos: "\<And>n. 0 < X n"
    and low: "\<And>n. s * (1 - 1 / 2 ^ 50) \<le> X n"
    and up: "\<And>n. X (Suc n) \<le> (X n + s * s / X n) / 2 * (1 + 1 / 2 ^ 50)"
    and down: "\<And>n. X n \<le> 2 * X (Suc n) * (1 + 1 / 2 ^ 50)"
    and start: "X 0 = s * s"
    and s1: "2 ^ 53 \<le> s" and s2: "s \<le> 2 ^ 55"
  shows "\<bar>X (Suc 59) - X 59\<bar> \<le> (1 + X (Suc 59)) / 2 ^ 40"
proof -
  define P where "P = (2::real) ^ 54"
  define c where "c = (1 + 1 / 2 ^ 40 :: real)"
  define W where "W = s * s / P"
  have P0: "0 < P"
    by (simp add: P_def)
  have sP1: "P / 2 \<le> s" and sP2: "s \<le> 2 * P"
    using s1 s2 by (simp_all add: P_def)
  have "0 \<le> (s - P / 2) * (2 * P - s)"
    using sP1 sP2 by (intro mult_nonneg_nonneg) simp_all
  then have "s * s \<le> (5 / 2 * s - P) * P"
    by (simp add: algebra_simps)
  then have "s * s / P \<le> ((5 / 2 * s - P) * P) / P"
    using P0 by (intro divide_right_mono) simp_all
  then have W: "W \<le> 5 / 2 * s - P"
    using P0 by (simp add: W_def)
  have T: "((4::real) ^ 54 - 1) / (3 * 2 ^ 54) \<le> P / 3"
    by (simp add: P_def)
  have c0: "0 \<le> c" and c1: "1 \<le> c"
    by (simp_all add: c_def)
  have "c * (((4::real) ^ 54 - 1) / (3 * 2 ^ 54)) \<le> c * (P / 3)"
    using T c0 by (rule mult_left_mono)
  then have "W + c * (((4::real) ^ 54 - 1) / (3 * 2 ^ 54)) \<le> 5 / 2 * s - P + c * (P / 3)"
    using W by linarith
  also have "\<dots> = 5 / 2 * s - P * (1 - c / 3)"
    by (simp add: algebra_simps)
  also have "\<dots> \<le> 5 / 2 * s - (s / 2) * (1 - c / 3)"
  proof -
    have "(s / 2) * (1 - c / 3) \<le> P * (1 - c / 3)"
      using sP2 by (intro mult_right_mono) (simp_all add: c_def)
    then show ?thesis
      by simp
  qed
  also have "\<dots> = s * (2 + c / 6)"
    by (simp add: algebra_simps)
  finally have sum: "W + c * (((4::real) ^ 54 - 1) / (3 * 2 ^ 54)) \<le> s * (2 + c / 6)" .
  have sum0: "0 \<le> s * (2 + c / 6)"
    using s c0 by simp
  have "X 54 \<le> (X 0 / 2 ^ 54 + (1 + 1 / 2 ^ 40) * ((4 ^ 54 - 1) / (3 * 2 ^ 54)))
      * (1 + 1 / 2 ^ 50) ^ 54"
    using s pos up down start by (rule heron_seq_bound_large) simp
  also have "X 0 / 2 ^ 54 = W"
    by (simp only: start W_def P_def)
  also have "(W + (1 + 1 / 2 ^ 40) * ((4 ^ 54 - 1) / (3 * 2 ^ 54))) * (1 + 1 / 2 ^ 50) ^ 54
      \<le> (s * (2 + c / 6)) * (1 + 1 / 2 ^ 50) ^ 54"
    using sum unfolding c_def by (intro mult_right_mono) simp_all
  also have "\<dots> \<le> (s * (2 + c / 6)) * (1 + 1 / 2 ^ 40)"
    using sum0 by (intro mult_left_mono power_roundoff_le) simp_all
  also have "\<dots> = s * ((2 + c / 6) * (1 + 1 / 2 ^ 40))"
    by simp
  also have "\<dots> \<le> s * (1 + 6 / 5)"
    using s by (intro mult_left_mono) (simp_all add: c_def)
  finally have "X 54 \<le> s * (1 + 6 / 5)" .
  with s pos low up
  have "\<bar>X (Suc (54 + 5)) - X (54 + 5)\<bar> \<le> (1 + X (Suc (54 + 5))) / 2 ^ 40"
    by (rule heron_seq_close_above)
  then show ?thesis
    by simp
qed

lemma half_lower_real:
  fixes A X Q S2 :: real
  assumes A: "0 < A" and X: "1 \<le> X"
    and q: "\<bar>Q - A / X\<bar> \<le> (A / X) / 2 ^ 53 + 1 / 2 ^ 100"
    and s: "\<bar>S2 - (X + Q)\<bar> \<le> (X + Q) / 2 ^ 53 + 1 / 2 ^ 100"
  shows "X \<le> S2 * (1 + 1 / 2 ^ 50)"
proof -
  define D where "D = A / X"
  have D: "0 \<le> D"
    using A X by (simp add: D_def)
  have q': "\<bar>Q - D\<bar> \<le> D / 2 ^ 53 + 1 / 2 ^ 100"
    using q by (simp only: D_def)
  have Q: "- (1 / 2 ^ 100) \<le> Q"
  proof -
    have "D - (D / 2 ^ 53 + 1 / 2 ^ 100) \<le> Q"
      using q' by linarith
    moreover have "D / 2 ^ 53 \<le> D"
      using D by (simp add: field_simps)
    ultimately show ?thesis
      by linarith
  qed
  have S: "(X + Q) - ((X + Q) / 2 ^ 53 + 1 / 2 ^ 100) \<le> S2"
    using s by linarith
  have "X * (1 - 1 / 2 ^ 52) \<le> (X + Q) - ((X + Q) / 2 ^ 53 + 1 / 2 ^ 100)"
    using Q X by (simp add: algebra_simps) argo
  with S have 1: "X * (1 - 1 / 2 ^ 52) \<le> S2"
    by linarith
  have "X \<le> (X * (1 - 1 / 2 ^ 52)) * (1 + 1 / 2 ^ 50)"
    using X by (simp add: algebra_simps)
  also have "\<dots> \<le> S2 * (1 + 1 / 2 ^ 50)"
    using 1 by (intro mult_right_mono) simp_all
  finally show ?thesis .
qed

section \<open>The number of iterations: from the estimates to the stop test\<close>

lemma stop_holds_real:
  fixes R X T1 TOL DF :: real
  assumes R: "0 \<le> R"
    and t1: "\<bar>T1 - (1 + R)\<bar> \<le> (1 + R) / 2 ^ 53 + 1 / 2 ^ 100"
    and tol: "\<bar>TOL - 4951760157141521 / 2 ^ 92 * T1\<bar>
        \<le> (4951760157141521 / 2 ^ 92 * T1) / 2 ^ 53 + 1 / 2 ^ 100"
    and df: "\<bar>DF - \<bar>R - X\<bar>\<bar> \<le> \<bar>R - X\<bar> / 2 ^ 53 + 1 / 2 ^ 100"
    and close: "\<bar>R - X\<bar> \<le> (1 + R) / 2 ^ 40"
  shows "DF \<le> TOL"
proof -
  define Dabs where "Dabs = \<bar>R - X\<bar>"
  have "0 \<le> Dabs"
    by (simp add: Dabs_def)
  with R t1 tol df [folded Dabs_def] close [folded Dabs_def] show ?thesis
    by (simp add: abs_le_iff) argo
qed

lemma stop_test_holds:
  assumes r: "is_binary64 (Fin False mr er)" and mr: "0 < mr"
    and x: "is_binary64 (Fin False m e)"
    and close: "\<bar>real mr * 2 powi er - real m * 2 powi e\<bar> \<le> (1 + real mr * 2 powi er) / 2 ^ 40"
  shows "stop_test eps12 (Fin False m e) (Fin False mr er)"
proof -
  have R: "0 \<le> real mr * 2 powi er"
    by simp
  have ab: "abs_double (Fin False mr er) = Fin False mr er"
    using mr by (simp add: abs_double_Fin [OF r])
  obtain mt et where t1: "fadd one (Fin False mr er) = Fin False mt et"
    using fadd_one_finite [OF r mr] by blast
  from fadd_error [of "2 ^ 52" mr "- 52" er]
  have tb: "is_binary64 (Fin False mt et)"
    and te: "\<bar>real mt * 2 powi et - (1 + real mr * 2 powi er)\<bar>
        \<le> (1 + real mr * 2 powi er) / 2 ^ 53 + 1 / 2 ^ 100"
    using t1 unfolding one_def valof_one_mantissa by auto
  have mt: "0 < mt"
  proof (rule ccontr)
    assume "\<not> 0 < mt"
    then have z: "real mt * 2 powi et = 0"
      by simp
    define Rv where "Rv = real mr * 2 powi er"
    have "0 \<le> Rv"
      by (simp add: Rv_def)
    moreover have "\<bar>0 - (1 + Rv)\<bar> \<le> (1 + Rv) / 2 ^ 53 + 1 / 2 ^ 100"
      using te unfolding z Rv_def .
    ultimately show False
      by (simp add: abs_le_iff) argo
  qed
  obtain mp ep where tol: "fmul eps12 (Fin False mt et) = Fin False mp ep"
    using fmul_eps_finite [OF tb mt] by blast
  from fmul_error [of 4951760157141521 mt "- 92" et] mt
  have pe: "\<bar>real mp * 2 powi ep - 4951760157141521 / 2 ^ 92 * (real mt * 2 powi et)\<bar>
        \<le> (4951760157141521 / 2 ^ 92 * (real mt * 2 powi et)) / 2 ^ 53 + 1 / 2 ^ 100"
    using tol unfolding eps12_def by (auto simp: power_int_minus_divide)
  obtain s md ed where d0: "fsub (Fin False mr er) (Fin False m e) = Fin s md ed"
    and db: "is_binary64 (Fin s md ed)"
    and de: "\<bar>real md * 2 powi ed - \<bar>real mr * 2 powi er - real m * 2 powi e\<bar>\<bar>
         \<le> \<bar>real mr * 2 powi er - real m * 2 powi e\<bar> / 2 ^ 53 + 1 / 2 ^ 100"
    using fsub_error [OF r x] by blast
  have le: "real md * 2 powi ed \<le> real mp * 2 powi ep"
    using R te pe de close by (rule stop_holds_real)
  then have "fle (abs_double (Fin s md ed)) (Fin False mp ep)"
    unfolding abs_double_Fin [OF db] by (cases "md = 0") (simp_all add: fle_valof)
  then show ?thesis
    unfolding stop_test_def ab t1 tol d0 .
qed

lemma step_upper_real:
  fixes A X Q S R h :: real
  assumes A: "0 < A" and X: "0 < X" and h: "0 \<le> h" "h * 2 ^ 60 \<le> X"
    and q: "\<bar>Q - A / X\<bar> \<le> (A / X) / 2 ^ 53 + h"
    and s: "\<bar>S - (X + Q)\<bar> \<le> (X + Q) / 2 ^ 53 + h"
    and r: "\<bar>R - S / 2\<bar> \<le> (S / 2) / 2 ^ 53 + h"
  shows "R \<le> (X + A / X) / 2 * (1 + 1 / 2 ^ 50)"
proof -
  define W where "W = A / X"
  have W: "0 < W"
    using A X by (simp add: W_def)
  have "R \<le> (X + W) / 2 * (1 + 1 / 2 ^ 50)"
    using q [folded W_def] s r h X W by (simp add: abs_le_iff) argo
  then show ?thesis
    by (simp only: W_def)
qed

lemma estimate_not_tiny:
  assumes a: "is_binary64 (Fin False ma ea)" and ma: "0 < ma"
    and X: "0 < X"
    and low: "(real ma * 2 powi ea) * (1 - 1 / 2 ^ 50) \<le> X * X"
  shows "half_min_subnormal * 2 ^ 60 \<le> X"
proof -
  define t :: real where "t = 2 powi (- 538)"
  have tpos: "0 < t"
    unfolding t_def by (rule zero_less_power_int) simp
  have "(2::real) powi (- 538 + - 538) = 2 powi (- 538) * 2 powi (- 538)"
    by (rule power_int_add) simp
  moreover have "(2::real) powi (- 2 + - 1074) = 2 powi (- 2) * 2 powi (- 1074)"
    by (rule power_int_add) simp
  moreover have "(2::real) powi (- 538 + - 538) = 2 powi (- 2 + - 1074)"
    by (rule arg_cong [where f = "power_int 2"]) simp
  ultimately have "t * t = 2 powi (- 2) * min_subnormal"
    by (simp only: t_def min_subnormal_def)
  also have "\<dots> = min_subnormal / 4"
    by (simp add: power_int_minus_divide)
  finally have tt: "t * t = min_subnormal / 4" .
  define Av where "Av = real ma * 2 powi ea"
  have Amin: "min_subnormal \<le> Av"
    unfolding Av_def using a ma by (rule positive_above_min)
  define XX where "XX = X * X"
  have low': "Av * (1 - 1 / 2 ^ 50) \<le> XX"
    using low by (simp only: Av_def XX_def)
  have "0 \<le> Av"
    using Amin min_subnormal_pos by linarith
  with low' have "Av / 2 \<le> XX"
    by (simp add: right_diff_distrib)
  with Amin min_subnormal_pos have "t * t < X * X"
    unfolding tt XX_def by linarith
  have tX: "t \<le> X"
  proof (rule ccontr)
    assume "\<not> t \<le> X"
    then have "X \<le> t" by simp
    then have "X * X \<le> t * t"
      using X by (intro mult_mono) simp_all
    with \<open>t * t < X * X\<close> show False by simp
  qed
  have "(2::real) powi (60 + - 1075) = 2 powi 60 * 2 powi (- 1075)"
    by (rule power_int_add) simp
  moreover have "(2::real) powi (60 + - 1075) \<le> 2 powi (- 538)"
    by (intro power_int_increasing) simp_all
  ultimately have "2 powi 60 * half_min_subnormal \<le> t"
    by (simp only: t_def half_min_subnormal_def)
  with tX show ?thesis
    by simp
qed

lemma heron_upper:
  assumes a: "is_binary64 (Fin False ma ea)" and ma: "0 < ma" and m: "0 < m"
    and low: "(real ma * 2 powi ea) * (1 - 1 / 2 ^ 50)
        \<le> (real m * 2 powi e) * (real m * 2 powi e)"
    and r: "heron (Fin False ma ea) (Fin False m e) = Fin False mr er"
  shows "real mr * 2 powi er
     \<le> (real m * 2 powi e + (real ma * 2 powi ea) / (real m * 2 powi e)) / 2 * (1 + 1 / 2 ^ 50)"
proof -
  have A: "0 < real ma * 2 powi ea"
    using ma by simp
  have X: "0 < real m * 2 powi e"
    using m by simp
  have h: "half_min_subnormal * 2 ^ 60 \<le> real m * 2 powi e"
    using a ma X low by (rule estimate_not_tiny)
  from fdiv_tight_error [OF ma m, of ea e]
  obtain mq eq where q: "fdiv (Fin False ma ea) (Fin False m e) = Fin False mq eq"
    and qe: "\<bar>real mq * 2 powi eq - (real ma * 2 powi ea) / (real m * 2 powi e)\<bar>
               \<le> ((real ma * 2 powi ea) / (real m * 2 powi e)) / 2 ^ 53
                  + half_min_subnormal"
    using r by (auto simp: heron_def half_def)
  from fadd_tight_error [of m mq e eq] m
  obtain ms es where s: "fadd (Fin False m e) (Fin False mq eq) = Fin False ms es"
    and se: "\<bar>real ms * 2 powi es - (real m * 2 powi e + real mq * 2 powi eq)\<bar>
               \<le> (real m * 2 powi e + real mq * 2 powi eq) / 2 ^ 53 + half_min_subnormal"
    using r unfolding heron_def q by (auto simp: half_def)
  from fmul_half_tight_error [of ms es]
  have re: "\<bar>real mr * 2 powi er - (real ms * 2 powi es) / 2\<bar>
               \<le> ((real ms * 2 powi es) / 2) / 2 ^ 53 + half_min_subnormal"
    using r unfolding heron_def q s by auto
  show ?thesis
    using A X half_min_subnormal_nonneg h qe se re by (rule step_upper_real)
qed

lemma iterate_near_above:
  assumes "is_binary64 a" and "positive a" and "is_finite a"
  shows "is_binary64 (iterate a n) \<and> positive (iterate a n) \<and> is_finite (iterate a n)
     \<and> valof a * (1 - 1 / 2 ^ 50) \<le> valof (iterate a n) * valof (iterate a n)"
proof (induction n)
  case 0
  show ?case
    using near_above_initial [OF assms] by simp
next
  case (Suc n)
  obtain ma ea where a: "a = Fin False ma ea" and ma: "0 < ma"
    using positive_finite_cases [OF assms(2,3)] by blast
  have ab: "is_binary64 (Fin False ma ea)"
    using assms(1) a by simp
  show ?case
    using Suc.IH near_above_step [OF ab ma, of "iterate a n"] unfolding a by simp
qed

lemma heron_half_lower:
  assumes ma: "0 < ma" and m: "0 < m"
    and A: "1 / 2 ^ 20 \<le> real ma * 2 powi ea"
    and X: "1 \<le> real m * 2 powi e"
    and r: "heron (Fin False ma ea) (Fin False m e) = Fin False mr er"
  shows "real m * 2 powi e \<le> 2 * (real mr * 2 powi er) * (1 + 1 / 2 ^ 50)"
proof -
  obtain Q where q: "\<bar>Q - (real ma * 2 powi ea) / (real m * 2 powi e)\<bar>
        \<le> ((real ma * 2 powi ea) / (real m * 2 powi e)) / 2 ^ 53 + 1 / 2 ^ 100"
    and s: "\<bar>2 * (real mr * 2 powi er) - (real m * 2 powi e + Q)\<bar>
        \<le> (real m * 2 powi e + Q) / 2 ^ 53 + 1 / 2 ^ 100"
    using heron_relations [OF ma m A r] by blast
  have "0 < real ma * 2 powi ea"
    using ma by simp
  from this X q s show ?thesis
    by (rule half_lower_real)
qed

lemma stops_within_60:
  assumes ab: "is_binary64 a" and pa: "positive a" and fa: "is_finite a"
    and small: "valof a \<le> 2 ^ 110"
  shows "\<exists>n<60. stops a eps12 n"
proof -
  obtain ma ea where a: "a = Fin False ma ea" and ma: "0 < ma"
    using positive_finite_cases [OF pa fa] by blast
  have ab': "is_binary64 (Fin False ma ea)"
    using ab a by simp
  define A where "A = valof a"
  define s where "s = sqrt A"
  define X where "X n = valof (iterate a n)" for n
  have A: "0 < A"
    using ma by (simp add: A_def a)
  have s: "0 < s"
    using A by (simp add: s_def)
  have ss: "s * s = A"
    using A by (simp add: s_def)
  have inv: "is_binary64 (iterate a n) \<and> positive (iterate a n) \<and> is_finite (iterate a n)
      \<and> A * (1 - 1 / 2 ^ 50) \<le> X n * X n" for n
    unfolding A_def X_def using ab pa fa by (rule iterate_near_above)
  have shape: "\<exists>m e. iterate a n = Fin False m e \<and> 0 < m \<and> is_binary64 (Fin False m e)
      \<and> X n = real m * 2 powi e" for n
  proof -
    obtain m e where "iterate a n = Fin False m e" and "0 < m"
      using positive_finite_cases [of "iterate a n"] inv [of n] by blast
    then show ?thesis
      using inv [of n] by (simp add: X_def)
  qed
  have pos: "0 < X n" for n
    using shape [of n] by auto
  have low: "s * (1 - 1 / 2 ^ 50) \<le> X n" for n
  proof -
    have "0 \<le> A" "0 \<le> X n"
      using A pos [of n] by simp_all
    then show ?thesis
      unfolding s_def using inv [of n] by (intro near_above_sqrt) simp_all
  qed
  have up: "X (Suc n) \<le> (X n + s * s / X n) / 2 * (1 + 1 / 2 ^ 50)" for n
  proof -
    obtain m e where x: "iterate a n = Fin False m e" and m: "0 < m"
      and xv: "X n = real m * 2 powi e"
      using shape [of n] by blast
    obtain mr er where r: "iterate a (Suc n) = Fin False mr er"
      and rv: "X (Suc n) = real mr * 2 powi er"
      using shape [of "Suc n"] by blast
    have h: "heron (Fin False ma ea) (Fin False m e) = Fin False mr er"
      using r unfolding a [symmetric] x [symmetric] by simp
    have lw: "(real ma * 2 powi ea) * (1 - 1 / 2 ^ 50)
        \<le> (real m * 2 powi e) * (real m * 2 powi e)"
      using inv [of n] unfolding xv A_def a by simp
    have Av: "s * s = real ma * 2 powi ea"
      unfolding ss A_def a by simp
    show ?thesis
      unfolding rv xv Av using ab' ma m lw h by (rule heron_upper)
  qed
  have "\<exists>n<60. \<bar>X (Suc n) - X n\<bar> \<le> (1 + X (Suc n)) / 2 ^ 40"
  proof (cases "fge a one \<and> 2 ^ 53 < s")
    case True
    then have X0: "X 0 = s * s" and s1: "2 ^ 53 \<le> s"
      by (simp_all add: X_def A_def ss initial_guess_def)
    have s2: "s \<le> 2 ^ 55"
    proof (rule ccontr)
      assume "\<not> s \<le> 2 ^ 55"
      then have "2 ^ 55 < s"
        by simp
      then have "2 ^ 55 * 2 ^ 55 < s * s"
        by (intro mult_strict_mono) simp_all
      with small show False
        unfolding ss A_def by simp
    qed
    have "2 ^ 53 * 2 ^ 53 \<le> s * s"
      using s1 by (intro mult_mono) simp_all
    then have Abig: "1 / 2 ^ 20 \<le> real ma * 2 powi ea"
      unfolding ss A_def a by simp
    have down: "X n \<le> 2 * X (Suc n) * (1 + 1 / 2 ^ 50)" for n
    proof -
      obtain m e where x: "iterate a n = Fin False m e" and m: "0 < m"
        and xv: "X n = real m * 2 powi e"
        using shape [of n] by blast
      obtain mr er where r: "iterate a (Suc n) = Fin False mr er"
        and rv: "X (Suc n) = real mr * 2 powi er"
        using shape [of "Suc n"] by blast
      have h: "heron (Fin False ma ea) (Fin False m e) = Fin False mr er"
        using r unfolding a [symmetric] x [symmetric] by simp
      have "2 ^ 53 * (1 - 1 / 2 ^ 50) \<le> s * (1 - 1 / 2 ^ 50)"
        using s1 by (intro mult_right_mono) simp_all
      with low [of n] have "1 \<le> X n"
        by simp
      then have X1: "1 \<le> real m * 2 powi e"
        by (simp only: xv)
      show ?thesis
        unfolding rv xv using ma m Abig X1 h by (rule heron_half_lower)
    qed
    from s pos low up down X0 s1 s2
    have "\<bar>X (Suc 59) - X 59\<bar> \<le> (1 + X (Suc 59)) / 2 ^ 40"
      by (rule heron_seq_stops_large)
    then show ?thesis
      by (intro exI [of _ 59]) simp
  next
    case False
    have start: "X 0 \<le> s * 2 ^ 53 \<or> (X 0 = 1 \<and> s \<le> 1 / 2 ^ 53)"
    proof (cases "fge a one")
      case True
      then have "X 0 = A"
        by (simp add: X_def A_def initial_guess_def)
      moreover have "s \<le> 2 ^ 53"
        using False True by simp
      then have "s * s \<le> s * 2 ^ 53"
        using s by (intro mult_left_mono) simp_all
      ultimately show ?thesis
        using ss by simp
    next
      case False
      then have X0: "X 0 = 1"
        by (simp add: X_def initial_guess_def valof_one)
      show ?thesis
      proof (cases "s \<le> 1 / 2 ^ 53")
        case True
        with X0 show ?thesis by simp
      next
        case False
        then have "1 \<le> s * 2 ^ 53"
          by (simp add: field_simps)
        with X0 show ?thesis by simp
      qed
    qed
    from s pos low up start show ?thesis
      by (rule heron_seq_stops)
  qed
  then obtain n where n: "n < 60"
    and close: "\<bar>X (Suc n) - X n\<bar> \<le> (1 + X (Suc n)) / 2 ^ 40"
    by blast
  obtain m e where x: "iterate a n = Fin False m e" and xb: "is_binary64 (Fin False m e)"
    and xv: "X n = real m * 2 powi e"
    using shape [of n] by blast
  obtain mr er where r: "iterate a (Suc n) = Fin False mr er" and mr: "0 < mr"
    and rb: "is_binary64 (Fin False mr er)" and rv: "X (Suc n) = real mr * 2 powi er"
    using shape [of "Suc n"] by blast
  have "stop_test eps12 (Fin False m e) (Fin False mr er)"
    using rb mr xb close [unfolded rv xv] by (rule stop_test_holds)
  then have "stops a eps12 n"
    unfolding stops_def x r .
  with n show ?thesis
    by blast
qed

lemma stopped_within_60:
  assumes ab: "is_binary64 a" and pa: "positive a" and fa: "is_finite a"
    and small: "valof a \<le> 2 ^ 110" and cap: "60 \<le> max_iters"
  shows "\<exists>n r. sqrt_newton_exit a eps12 max_iters = Some (Stopped (int n) r) \<and> n < 60"
proof -
  define n where "n = (LEAST k. stops a eps12 k)"
  obtain k where k: "k < 60" and sk: "stops a eps12 k"
    using stops_within_60 [OF ab pa fa small] by blast
  have sn: "stops a eps12 n"
    unfolding n_def using sk by (rule LeastI)
  have nk: "n \<le> k"
    unfolding n_def using sk by (rule Least_le)
  have before: "\<forall>j<n. \<not> stops a eps12 j"
    unfolding n_def using not_less_Least by blast
  have lt: "int n < max_iters"
    using nk k cap by simp
  have "newton_loop a eps12 max_iters (int 0) (iterate a 0)
      = Stopped (int n) (iterate a (Suc n))"
    using before sn lt by (rule newton_loop_stops) simp
  moreover have "\<not> flt a zero" "\<not> feq a zero"
    using flt_zero_dispatch [of a] pa by (simp_all add: positive_iff)
  ultimately have "sqrt_newton_exit a eps12 max_iters = Some (Stopped (int n) (iterate a (Suc n)))"
    by (simp add: sqrt_newton_exit_def)
  with nk k show ?thesis
    by (intro exI [of _ n] exI [of _ "iterate a (Suc n)"]) simp
qed

text \<open>
  The bound \<open>2^110\<close> on the input is close to the largest possible one: for
  \<open>a = 1.5 * 2^110\<close> the stop test first holds in the iteration with counter 60, the
  sixty-first.
\<close>

lemma stop_after_60_above_2p110:
  "is_binary64 d_3p109 \<and> positive d_3p109 \<and> is_finite d_3p109
   \<and> valof d_3p109 = 3 * 2 ^ 109
   \<and> sqrt_newton_exit d_3p109 eps12 100 = Some (Stopped 60 (Fin False 5515760546423086 3))
   \<and> \<not> stopped_within 60 (sqrt_newton_exit d_3p109 eps12 100)"
  by (simp add: run_3p109) (simp add: d_3p109_def is_binary64_def)

text \<open>
  Claim C2, amended. For every positive finite binary64 \<open>a \<le> 2^110\<close> (subnormal numbers
  included) and \<open>eps = 1e-12\<close>, starting from the initial guess \<open>x\<^sub>0 = (a \<ge> 1 ? a : 1)\<close>, the
  stop test triggers within 60 iterations whenever \<open>max_iters \<ge> 60\<close>: the loop is left through
  the \<open>return\<close> inside it, in an iteration with counter below 60, and the cap is not reached.
\<close>

theorem stop_within_60_up_to_2p110:
  assumes "is_binary64 a" and "positive a" and "is_finite a"
    and "valof a \<le> 2 ^ 110" and "60 \<le> max_iters"
  shows "stopped_within 60 (sqrt_newton_exit a eps12 max_iters)"
  using stopped_within_60 [OF assms] by auto

theorem stop_within_60_up_to_2p110_witness:
  "is_binary64 d_2 \<and> positive d_2 \<and> is_finite d_2 \<and> valof d_2 \<le> 2 ^ 110 \<and> (60::int) \<le> 100
   \<and> stopped_within 60 (sqrt_newton_exit d_2 eps12 100)
   \<and> sqrt_newton_exit d_2 eps12 100 = Some (Stopped 4 (Fin False 6369051672525772 (- 52)))"
proof -
  have h: "is_binary64 d_2" "positive d_2" "is_finite d_2" "valof d_2 \<le> 2 ^ 110"
    "(60::int) \<le> 100"
    by (simp_all add: d_2_def is_binary64_def)
  show ?thesis
    using h run_2 stop_within_60_up_to_2p110 [OF h] by blast
qed

section \<open>Ties: rounding to the even neighbour\<close>









section \<open>The estimate just below the square root: arithmetic on significands\<close>









section \<open>The parts of a step that lands below the square root\<close>








section \<open>An estimate just below the square root is a fixed point of the step\<close>





section \<open>The estimates never increase\<close>





end
